theory Spec2Isabelle
  imports Complex_Main
begin

section \<open>Numbers of the calculation service\<close>

text \<open>
  The service (src/app/services/calculationService.ts) computes with two kinds of
  numbers: JavaScript's \<open>number\<close> (an IEEE binary64) and decimal.js's \<open>Decimal\<close>,
  configured with precision 28 and rounding ROUND_HALF_UP. Both have finite values, two
  infinities and NaN. A finite value is modelled by a rational:
  \<^item> a \<open>Decimal\<close> by its value;
  \<^item> a \<open>number\<close> by the decimal numeral JavaScript prints for it (the shortest digit
    string that reads back as the same binary64), which is the value \<open>new Decimal(v)\<close>
    takes from it. The service uses its numbers only to build Decimals and to compare
    them with each other, so nothing else is observed of a number.
  Negative zero is not distinguished from zero.
\<close>

datatype number = Fin rat | PosInf | NegInf | NaN

type_synonym Decimal = number

subsection \<open>Position of the leading digit\<close>

text \<open>\<open>ndig b n\<close> is the number of base-\<open>b\<close> digits of \<open>n\<close> (one digit below \<open>b\<close>).\<close>

function ndig :: "int \<Rightarrow> int \<Rightarrow> int" where
  "ndig b n = (if b < 2 \<or> n < b then 1 else 1 + ndig b (n div b))"
  by pat_completeness auto
termination
  by (relation "measure (\<lambda>(b, n). nat n)") (auto simp: not_less intro: int_div_less_self)

declare ndig.simps [simp del]

text \<open>
  \<open>fexp b x\<close> is the exponent of the leading base-\<open>b\<close> digit of a non-zero \<open>x\<close>:
  \<open>b ^ fexp b x \<le> \<bar>x\<bar> < b ^ (fexp b x + 1)\<close>.
\<close>

definition fexp :: "int \<Rightarrow> rat \<Rightarrow> int" where
  "fexp b x =
     (if 1 \<le> \<bar>x\<bar> then ndig b \<lfloor>\<bar>x\<bar>\<rfloor> - 1
      else let y = 1 / \<bar>x\<bar>; f = \<lfloor>y\<rfloor>
           in - ndig b (if of_int f = y then f - 1 else f))"

subsection \<open>Rounding to an integer\<close>

text \<open>ROUND_HALF_UP of decimal.js: to the nearest integer, a tie away from zero.\<close>

definition round_half_up :: "rat \<Rightarrow> int" where
  "round_half_up q = (if q < 0 then - \<lfloor>\<bar>q\<bar> + 1 / 2\<rfloor> else \<lfloor>\<bar>q\<bar> + 1 / 2\<rfloor>)"

text \<open>The rounding of IEEE 754 arithmetic: to the nearest integer, a tie to the even one.\<close>

definition round_half_even :: "rat \<Rightarrow> int" where
  "round_half_even q =
     (let f = \<lfloor>\<bar>q\<bar>\<rfloor>;
          d = \<bar>q\<bar> - of_int f;
          r = (if d < 1 / 2 then f else if 1 / 2 < d then f + 1 else if even f then f else f + 1)
      in if q < 0 then - r else r)"

text \<open>\<open>x\<close> rounded with \<open>r\<close> to a multiple of the unit \<open>u\<close>.\<close>

definition round_at :: "(rat \<Rightarrow> int) \<Rightarrow> rat \<Rightarrow> rat \<Rightarrow> rat" where
  "round_at r u x = of_int (r (x / u)) * u"

subsection \<open>Decimal: 28 significant digits, half up\<close>

definition maxE :: int where
  "maxE = 9000000000000000"

definition minE :: int where
  "minE = - 9000000000000000"

text \<open>A non-zero rational rounded to 28 significant decimal digits.\<close>

definition round_sd :: "rat \<Rightarrow> rat" where
  "round_sd x = round_at round_half_up (10 powi (fexp 10 x - 27)) x"

text \<open>
  decimal.js \<open>finalise\<close>: round to the precision, then overflow to an infinity above the
  exponent limit \<open>maxE\<close> and underflow to zero below \<open>minE\<close>.
\<close>

definition finalise :: "rat \<Rightarrow> Decimal" where
  "finalise x =
     (if x = 0 then Fin 0
      else let y = round_sd x; e = fexp 10 y
           in if maxE < e then (if 0 < x then PosInf else NegInf)
              else if e < minE then Fin 0
              else Fin y)"

subsection \<open>Conversion between Decimal and number\<close>

text \<open>
  The binary64 nearest to a rational (ties to even, gradual underflow below \<open>2^-1022\<close>,
  overflow to an infinity from \<open>2^1024\<close>), as its exact value.
\<close>

definition to_double :: "rat \<Rightarrow> number" where
  "to_double x =
     (if x = 0 then Fin 0
      else let y = round_at round_half_even (2 powi (max (fexp 2 x) (- 1022) - 52)) x
           in if 2 powi 1024 \<le> \<bar>y\<bar> then (if 0 < x then PosInf else NegInf) else Fin y)"

text \<open>
  Number::toString chooses the fewest digits \<open>k\<close> for which a \<open>k\<close>-digit decimal reads
  back as the same binary64, and among those the decimal closest to it (the even one on
  a tie). \<open>cands d k\<close> are the two \<open>k\<close>-digit neighbours of a positive \<open>d\<close>, the preferred
  one first.
\<close>

definition cands :: "rat \<Rightarrow> int \<Rightarrow> rat list" where
  "cands d k =
     (let u = 10 powi (fexp 10 d - k + 1);
          f = \<lfloor>d / u\<rfloor>;
          lo = of_int f * u;
          hi = lo + u
      in if d - lo < hi - d then [lo, hi]
         else if hi - d < d - lo then [hi, lo]
         else if even f then [lo, hi] else [hi, lo])"

text \<open>
  The search from \<open>k\<close> digits upwards; seventeen digits always suffice for a binary64,
  and a value that no candidate reads back as is left as it is.
\<close>

function shortest_from :: "int \<Rightarrow> rat \<Rightarrow> rat" where
  "shortest_from k d =
     (if 17 < k then d
      else case find (\<lambda>c. to_double c = Fin d) (cands d k) of
             Some c \<Rightarrow> c
           | None \<Rightarrow> shortest_from (k + 1) d)"
  by pat_completeness auto
termination
  by (relation "measure (\<lambda>(k, d). nat (18 - k))") auto

declare shortest_from.simps [simp del]

definition shortest :: "rat \<Rightarrow> rat" where
  "shortest d =
     (if d = 0 then 0 else if d < 0 then - shortest_from 1 \<bar>d\<bar> else shortest_from 1 \<bar>d\<bar>)"

text \<open>
  \<open>Decimal.prototype.toNumber\<close>: the value is written out and read as a number, that
  is rounded to the nearest binary64.
\<close>

definition toNumber :: "Decimal \<Rightarrow> number" where
  "toNumber x =
     (case x of
        Fin q \<Rightarrow> (case to_double q of Fin d \<Rightarrow> Fin (shortest d) | y \<Rightarrow> y)
      | y \<Rightarrow> y)"

text \<open>\<open>new Decimal(v)\<close> for a number \<open>v\<close>: its printed digits, not rounded.\<close>

definition new_Decimal :: "number \<Rightarrow> Decimal" where
  "new_Decimal v = v"

subsection \<open>Decimal arithmetic\<close>

text \<open>
  The operations of decimal.js round their result to the precision; an operand that is
  NaN or infinite is handled as the library does, never by an exception. A quotient by
  zero is an infinity (NaN for \<open>0 / 0\<close>).
\<close>

fun plusD :: "Decimal \<Rightarrow> Decimal \<Rightarrow> Decimal" where
  "plusD NaN y = NaN"
| "plusD x NaN = NaN"
| "plusD PosInf NegInf = NaN"
| "plusD NegInf PosInf = NaN"
| "plusD PosInf y = PosInf"
| "plusD NegInf y = NegInf"
| "plusD x PosInf = PosInf"
| "plusD x NegInf = NegInf"
| "plusD (Fin a) (Fin b) = finalise (a + b)"

fun minusD :: "Decimal \<Rightarrow> Decimal \<Rightarrow> Decimal" where
  "minusD NaN y = NaN"
| "minusD x NaN = NaN"
| "minusD PosInf PosInf = NaN"
| "minusD NegInf NegInf = NaN"
| "minusD PosInf y = PosInf"
| "minusD NegInf y = NegInf"
| "minusD x PosInf = NegInf"
| "minusD x NegInf = PosInf"
| "minusD (Fin a) (Fin b) = finalise (a - b)"

text \<open>The infinity with the sign of \<open>a\<close>.\<close>

definition inf_of :: "rat \<Rightarrow> Decimal" where
  "inf_of a = (if a < 0 then NegInf else PosInf)"

fun mulD :: "Decimal \<Rightarrow> Decimal \<Rightarrow> Decimal" where
  "mulD NaN y = NaN"
| "mulD x NaN = NaN"
| "mulD PosInf PosInf = PosInf"
| "mulD PosInf NegInf = NegInf"
| "mulD NegInf PosInf = NegInf"
| "mulD NegInf NegInf = PosInf"
| "mulD PosInf (Fin b) = (if b = 0 then NaN else inf_of b)"
| "mulD NegInf (Fin b) = (if b = 0 then NaN else inf_of (- b))"
| "mulD (Fin a) PosInf = (if a = 0 then NaN else inf_of a)"
| "mulD (Fin a) NegInf = (if a = 0 then NaN else inf_of (- a))"
| "mulD (Fin a) (Fin b) = finalise (a * b)"

fun divD :: "Decimal \<Rightarrow> Decimal \<Rightarrow> Decimal" where
  "divD NaN y = NaN"
| "divD x NaN = NaN"
| "divD PosInf PosInf = NaN"
| "divD PosInf NegInf = NaN"
| "divD NegInf PosInf = NaN"
| "divD NegInf NegInf = NaN"
| "divD PosInf (Fin b) = inf_of b"
| "divD NegInf (Fin b) = inf_of (- b)"
| "divD (Fin a) PosInf = Fin 0"
| "divD (Fin a) NegInf = Fin 0"
| "divD (Fin a) (Fin b) =
     (if b = 0 then (if a = 0 then NaN else inf_of a) else finalise (a / b))"

text \<open>\<open>x.gt(y)\<close>, and \<open>x > y\<close> on numbers: false when either side is NaN.\<close>

fun gt :: "number \<Rightarrow> number \<Rightarrow> bool" where
  "gt NaN y = False"
| "gt x NaN = False"
| "gt x PosInf = False"
| "gt PosInf y = True"
| "gt NegInf y = False"
| "gt x NegInf = True"
| "gt (Fin a) (Fin b) = (b < a)"

text \<open>\<open>x \<le> y\<close> on numbers: false when either side is NaN.\<close>

fun le :: "number \<Rightarrow> number \<Rightarrow> bool" where
  "le NaN y = False"
| "le x NaN = False"
| "le NegInf y = True"
| "le x PosInf = True"
| "le PosInf y = False"
| "le x NegInf = False"
| "le (Fin a) (Fin b) = (a \<le> b)"

text \<open>\<open>Decimal.min(x, y)\<close>: NaN when either is NaN, else the lesser; not rounded.\<close>

fun minD :: "Decimal \<Rightarrow> Decimal \<Rightarrow> Decimal" where
  "minD NaN y = NaN"
| "minD x NaN = NaN"
| "minD x y = (if gt x y then y else x)"

definition isZero :: "Decimal \<Rightarrow> bool" where
  "isZero x = (x = Fin 0)"

subsection \<open>Powers\<close>

definition is_integer :: "rat \<Rightarrow> bool" where
  "is_integer q = (of_int \<lfloor>q\<rfloor> = q)"

definition odd_integer :: "rat \<Rightarrow> bool" where
  "odd_integer q = (is_integer q \<and> odd \<lfloor>q\<rfloor>)"

text \<open>A positive real rounded to 28 significant decimal digits, half up.\<close>

definition round_sd_real :: "real \<Rightarrow> rat" where
  "round_sd_real r =
     (let e = \<lfloor>log 10 r\<rfloor> - 27 in of_int \<lfloor>r / 10 powi e + 1 / 2\<rfloor> * 10 powi e)"

text \<open>
  The power of two finite non-zero Decimals. For an integer exponent decimal.js
  multiplies by repeated squaring with guard digits, otherwise it computes
  \<open>exp (y * ln x)\<close>; in both cases the result is the power rounded to the precision
  (the library documents it as almost always correctly rounded, and it is modelled as
  correctly rounded). A negative base with a fractional exponent gives NaN.
\<close>

definition finite_pow :: "rat \<Rightarrow> rat \<Rightarrow> Decimal" where
  "finite_pow a e =
     (if a = 1 then Fin 1
      else if e = 1 then finalise a
      else if is_integer e then finalise (a powi \<lfloor>e\<rfloor>)
      else if a < 0 then NaN
      else finalise (round_sd_real (of_rat a powr of_rat e)))"

text \<open>
  \<open>Math.pow\<close> (ECMAScript Number::exponentiate), case by case in the order of the
  standard. Its last case, two finite non-zero arguments, is left to the implementation
  by the standard; decimal.js never calls it there.
\<close>

fun Math_pow :: "number \<Rightarrow> number \<Rightarrow> number" where
  "Math_pow b NaN = NaN"
| "Math_pow b (Fin e) =
     (if e = 0 then Fin 1
      else case b of
        NaN \<Rightarrow> NaN
      | PosInf \<Rightarrow> (if 0 < e then PosInf else Fin 0)
      | NegInf \<Rightarrow> (if 0 < e then (if odd_integer e then NegInf else PosInf) else Fin 0)
      | Fin a \<Rightarrow>
          (if a = 0 then (if 0 < e then Fin 0 else PosInf)
           else toNumber (finite_pow a e)))"
| "Math_pow NaN y = NaN"
| "Math_pow PosInf PosInf = PosInf"
| "Math_pow PosInf NegInf = Fin 0"
| "Math_pow NegInf PosInf = PosInf"
| "Math_pow NegInf NegInf = Fin 0"
| "Math_pow (Fin a) PosInf =
     (if a = 0 then Fin 0 else if 1 < \<bar>a\<bar> then PosInf else if \<bar>a\<bar> = 1 then NaN else Fin 0)"
| "Math_pow (Fin a) NegInf =
     (if a = 0 then PosInf else if 1 < \<bar>a\<bar> then Fin 0 else if \<bar>a\<bar> = 1 then NaN else PosInf)"

text \<open>
  \<open>Decimal.prototype.pow\<close>: when either operand is NaN, infinite or zero the library
  returns \<open>Math.pow\<close> of the two operands as numbers.
\<close>

fun powD :: "Decimal \<Rightarrow> Decimal \<Rightarrow> Decimal" where
  "powD (Fin a) (Fin e) =
     (if a = 0 \<or> e = 0 then new_Decimal (Math_pow (toNumber (Fin a)) (toNumber (Fin e)))
      else finite_pow a e)"
| "powD x y = new_Decimal (Math_pow (toNumber x) (toNumber y))"

section \<open>Reading form input\<close>

text \<open>
  \<open>parseFloat\<close>: leading white space is skipped, then the longest prefix that is a
  StrDecimalLiteral is read; NaN when there is none. Characters are the code units
  below 256.
\<close>

definition isWhiteSpace :: "char \<Rightarrow> bool" where
  "isWhiteSpace c = (c \<in> set [CHR 0x09, CHR 0x0A, CHR 0x0B, CHR 0x0C, CHR 0x0D, CHR 0x20, CHR 0xA0])"

definition isDigit :: "char \<Rightarrow> bool" where
  "isDigit c = (c \<in> set ''0123456789'')"

definition digitsVal :: "string \<Rightarrow> int" where
  "digitsVal ds = foldl (\<lambda>n c. 10 * n + (of_char c - 48)) 0 ds"

text \<open>The digits of a SignedInteger, with the sign \<open>sg\<close> already read; 0 when there is none.\<close>

definition exp_digits :: "int \<Rightarrow> string \<Rightarrow> int" where
  "exp_digits sg r = (if takeWhile isDigit r = [] then 0 else sg * digitsVal (takeWhile isDigit r))"

text \<open>The value of an optional ExponentPart at the head of \<open>s\<close>; 0 when there is none.\<close>

definition parse_exponent :: "string \<Rightarrow> int" where
  "parse_exponent s =
     (case s of
        [] \<Rightarrow> 0
      | c # t \<Rightarrow>
          if c = CHR ''e'' \<or> c = CHR ''E'' then
            (case t of
               [] \<Rightarrow> 0
             | g # r \<Rightarrow>
                 if g = CHR ''+'' then exp_digits 1 r
                 else if g = CHR ''-'' then exp_digits (- 1) r
                 else exp_digits 1 t)
          else 0)"

text \<open>The digits after a decimal point at the head of \<open>s\<close>, and what follows them.\<close>

definition parse_fraction :: "string \<Rightarrow> string \<times> string" where
  "parse_fraction s =
     (case s of
        [] \<Rightarrow> ([], [])
      | c # t \<Rightarrow> if c = CHR ''.'' then (takeWhile isDigit t, dropWhile isDigit t) else ([], s))"

text \<open>StrUnsignedDecimalLiteral: its exact value, before it is rounded to a number.\<close>

definition parse_unsigned :: "string \<Rightarrow> number" where
  "parse_unsigned s =
     (if take 8 s = ''Infinity'' then PosInf
      else case parse_fraction (dropWhile isDigit s) of
        (fp, r) \<Rightarrow>
          if takeWhile isDigit s = [] \<and> fp = [] then NaN
          else Fin (of_int (digitsVal (takeWhile isDigit s @ fp))
                    * 10 powi (parse_exponent r - int (length fp))))"

fun negate :: "number \<Rightarrow> number" where
  "negate (Fin a) = Fin (- a)"
| "negate PosInf = NegInf"
| "negate NegInf = PosInf"
| "negate NaN = NaN"

definition parse_signed :: "string \<Rightarrow> number" where
  "parse_signed s =
     (case s of
        [] \<Rightarrow> NaN
      | c # t \<Rightarrow>
          if c = CHR ''-'' then negate (parse_unsigned t)
          else if c = CHR ''+'' then parse_unsigned t
          else parse_unsigned s)"

definition parseFloat :: "string \<Rightarrow> number" where
  "parseFloat s = toNumber (parse_signed (dropWhile isWhiteSpace s))"

section \<open>Types of the calculator (src/app/types/emi.ts)\<close>

record FormDataStrings =
  salary :: string
  rent :: string
  other :: string
  projectIncome :: string
  existingLoans :: string
  totalProjectCost :: string
  equityPercentage :: string
  rate :: string
  repaymentPeriod :: string
  gracePeriod :: string

record FormData =
  salary :: number
  rent :: number
  other :: number
  projectIncome :: number
  existingLoans :: number
  totalProjectCost :: number
  equityPercentage :: number
  rate :: number
  repaymentPeriod :: number
  gracePeriod :: number

record Calculations =
  totalIncome :: number
  totalExpenditure :: number
  totalProjectIncome :: number
  totalProjectExpenditure :: number
  netIncome :: number
  monthlyRepayment :: number
  afterGraceRepayment :: number
  gracePeriodRepayment :: number
  dscr :: number
  incomeTax :: number
  maintenanceCost :: number
  bankFinanceAmount :: number

record TaxBracket =
  min_b :: number
  max_b :: number
  rate_b :: number

datatype Scenario = normal | income_reduce

record Adjusted =
  adjustedSalary :: number
  adjustedRent :: number
  adjustedOther :: number
  adjustedProjectIncome :: number

section \<open>EMICalculationService\<close>

definition taxBrackets :: "TaxBracket list" where
  "taxBrackets =
     [\<lparr>min_b = Fin 0, max_b = Fin 720000, rate_b = Fin 0\<rparr>,
      \<lparr>min_b = Fin 720000, max_b = Fin 1200000, rate_b = Fin (55 / 10)\<rparr>,
      \<lparr>min_b = Fin 1200000, max_b = Fin 1800000, rate_b = Fin 8\<rparr>,
      \<lparr>min_b = Fin 1800000, max_b = Fin 2400000, rate_b = Fin 12\<rparr>,
      \<lparr>min_b = Fin 2400000, max_b = PosInf, rate_b = Fin 15\<rparr>]"

definition MAX_SAFE_INTEGER :: number where
  "MAX_SAFE_INTEGER = Fin 9007199254740991"

text \<open>\<open>parseFloat(value) || 0\<close>: NaN and zero are falsy.\<close>

definition getNumericValue :: "string \<Rightarrow> number" where
  "getNumericValue value =
     (let parsed = (if parseFloat value = NaN \<or> parseFloat value = Fin 0 then Fin 0
                    else parseFloat value)
      in toNumber (new_Decimal parsed))"

definition convertToNumericFormData :: "FormDataStrings \<Rightarrow> FormData" where
  "convertToNumericFormData formData =
     \<lparr>salary = getNumericValue (FormDataStrings.salary formData),
      rent = getNumericValue (FormDataStrings.rent formData),
      other = getNumericValue (FormDataStrings.other formData),
      projectIncome = getNumericValue (FormDataStrings.projectIncome formData),
      existingLoans = getNumericValue (FormDataStrings.existingLoans formData),
      totalProjectCost = getNumericValue (FormDataStrings.totalProjectCost formData),
      equityPercentage = getNumericValue (FormDataStrings.equityPercentage formData),
      rate = getNumericValue (FormDataStrings.rate formData),
      repaymentPeriod = getNumericValue (FormDataStrings.repaymentPeriod formData),
      gracePeriod = getNumericValue (FormDataStrings.gracePeriod formData)\<rparr>"

text \<open>
  The body of the loop of \<open>calculateIncomeTax\<close> for one bracket: \<open>tax\<close> is the running
  total.
\<close>

definition bracketStep :: "Decimal \<Rightarrow> TaxBracket \<Rightarrow> Decimal \<Rightarrow> Decimal" where
  "bracketStep income bracket tax =
     (let bracketMin = new_Decimal (min_b bracket);
          bracketMax = (if max_b bracket = PosInf then new_Decimal MAX_SAFE_INTEGER
                        else new_Decimal (max_b bracket))
      in if gt income bracketMin then
           (let taxableInBracket = minD (minusD income bracketMin) (minusD bracketMax bracketMin);
                bracketTax = divD (mulD taxableInBracket (new_Decimal (rate_b bracket)))
                                  (new_Decimal (Fin 100))
            in plusD tax bracketTax)
         else tax)"

definition calculateIncomeTax :: "number \<Rightarrow> number" where
  "calculateIncomeTax annualIncome =
     (let income = new_Decimal annualIncome;
          tax = fold (bracketStep income) taxBrackets (new_Decimal (Fin 0))
      in toNumber (divD tax (new_Decimal (Fin 12))))"

text \<open>
  The tax calculator as the specification words it (section 4.2), in the Decimal
  arithmetic the specification prescribes: for each bracket in ascending order, if the
  annual income exceeds the lower bound, the taxable amount is
  \<open>min (annualIncome - lowerBound) (upperBound - lowerBound)\<close>, and
  \<open>taxableAmount * rate / 100\<close> is accumulated; the sum is divided by 12. The upper bound
  of the last bracket is unbounded.
\<close>

definition spec_bracketStep :: "Decimal \<Rightarrow> TaxBracket \<Rightarrow> Decimal \<Rightarrow> Decimal" where
  "spec_bracketStep annualIncome bracket tax =
     (if gt annualIncome (min_b bracket) then
        plusD tax
          (divD (mulD (minD (minusD annualIncome (min_b bracket))
                            (minusD (max_b bracket) (min_b bracket)))
                      (rate_b bracket))
                (Fin 100))
      else tax)"

definition spec_incomeTax :: "number \<Rightarrow> number" where
  "spec_incomeTax annualIncome =
     toNumber (divD (fold (spec_bracketStep annualIncome) taxBrackets (Fin 0)) (Fin 12))"

definition calculateEMI :: "number \<Rightarrow> number \<Rightarrow> number \<Rightarrow> number" where
  "calculateEMI principal' rate' tenure =
     (let p = new_Decimal principal';
          r = new_Decimal rate';
          n = new_Decimal tenure;
          monthlyRate = divD (divD r (new_Decimal (Fin 100))) (new_Decimal (Fin 12))
      in if isZero monthlyRate then toNumber (divD p n)
         else
           (let onePlusR = plusD monthlyRate (new_Decimal (Fin 1));
                onePlusRPowerN = powD onePlusR (new_Decimal (toNumber n));
                numerator = mulD (mulD p monthlyRate) onePlusRPowerN;
                denominator = minusD onePlusRPowerN (new_Decimal (Fin 1));
                emi = divD numerator denominator
            in toNumber emi))"

definition calculateGracePeriodPayment :: "number \<Rightarrow> number \<Rightarrow> number" where
  "calculateGracePeriodPayment principal' rate' =
     (let p = new_Decimal principal';
          r = new_Decimal rate';
          monthlyInterest = divD (divD (mulD p r) (new_Decimal (Fin 100))) (new_Decimal (Fin 12))
      in toNumber monthlyInterest)"

definition applyScenarioMultipliers :: "FormData \<Rightarrow> Scenario \<Rightarrow> Adjusted" where
  "applyScenarioMultipliers formData scenario =
     (let multiplier = new_Decimal (if scenario = income_reduce then Fin (8 / 10) else Fin 1)
      in \<lparr>adjustedSalary = toNumber (mulD (new_Decimal (salary formData)) multiplier),
          adjustedRent = toNumber (mulD (new_Decimal (rent formData)) multiplier),
          adjustedOther = toNumber (mulD (new_Decimal (other formData)) multiplier),
          adjustedProjectIncome =
            toNumber (mulD (new_Decimal (projectIncome formData)) multiplier)\<rparr>)"

definition calculateBankFinanceAmount :: "number \<Rightarrow> number \<Rightarrow> number" where
  "calculateBankFinanceAmount totalProjectCost' equityPercentage' =
     (let cost = new_Decimal totalProjectCost';
          equity = new_Decimal equityPercentage';
          equityRatio = divD equity (new_Decimal (Fin 100));
          bankFinanceRatio = minusD (new_Decimal (Fin 1)) equityRatio
      in toNumber (mulD cost bankFinanceRatio))"

definition calculateEquityAmount :: "number \<Rightarrow> number \<Rightarrow> number" where
  "calculateEquityAmount totalProjectCost' equityPercentage' =
     (let cost = new_Decimal totalProjectCost';
          equity = new_Decimal equityPercentage'
      in toNumber (divD (mulD cost equity) (new_Decimal (Fin 100))))"

definition performCalculations :: "FormDataStrings \<Rightarrow> Scenario \<Rightarrow> bool \<Rightarrow> Calculations" where
  "performCalculations formData scenario isAfterGrace =
     (let numericData = convertToNumericFormData formData;
          adj = applyScenarioMultipliers numericData scenario;
          totalIncome =
            toNumber (plusD (plusD (new_Decimal (adjustedSalary adj))
                                   (new_Decimal (adjustedRent adj)))
                            (new_Decimal (adjustedOther adj)));
          expenditureRate =
            new_Decimal (if gt totalIncome (Fin 25000) then Fin (35 / 100) else Fin (40 / 100));
          totalExpenditure = toNumber (mulD (new_Decimal totalIncome) expenditureRate);
          totalProjectIncome = (if isAfterGrace then adjustedProjectIncome adj else Fin 0);
          bankFinanceAmount =
            calculateBankFinanceAmount (totalProjectCost numericData)
              (equityPercentage numericData);
          afterGraceRepayment =
            calculateEMI bankFinanceAmount (rate numericData)
              (repaymentPeriod numericData);
          gracePeriodRepayment =
            calculateGracePeriodPayment bankFinanceAmount (rate numericData);
          currentMonthlyRepayment =
            (if isAfterGrace then afterGraceRepayment else gracePeriodRepayment);
          maintenanceCost =
            (if gt (adjustedRent adj) (Fin 0) \<or> gt (adjustedProjectIncome adj) (Fin 0) then
               toNumber (mulD (plusD (new_Decimal (adjustedRent adj))
                                     (new_Decimal (if isAfterGrace then adjustedProjectIncome adj
                                                   else Fin 0)))
                              (new_Decimal (Fin (5 / 100))))
             else Fin 0);
          annualTotalIncome =
            toNumber (mulD (plusD (new_Decimal totalIncome) (new_Decimal totalProjectIncome))
                           (new_Decimal (Fin 12)));
          monthlyIncomeTax = calculateIncomeTax annualTotalIncome;
          totalProjectExpenditure0 =
            plusD (new_Decimal maintenanceCost) (new_Decimal monthlyIncomeTax);
          totalProjectExpenditure1 =
            (if scenario = income_reduce then
               plusD totalProjectExpenditure0
                 (mulD (new_Decimal totalIncome) (new_Decimal (Fin (20 / 100))))
             else totalProjectExpenditure0);
          finalProjectExpenditure = toNumber totalProjectExpenditure1;
          netIncome =
            toNumber (minusD (plusD (minusD (new_Decimal totalIncome)
                                            (new_Decimal totalExpenditure))
                                    (new_Decimal totalProjectIncome))
                             (new_Decimal finalProjectExpenditure));
          totalRepaymentObligation =
            plusD (new_Decimal (existingLoans numericData)) (new_Decimal afterGraceRepayment);
          dscr = (if isZero totalRepaymentObligation then Fin 0
                  else toNumber (divD (new_Decimal netIncome) totalRepaymentObligation))
      in \<lparr>totalIncome = totalIncome,
          totalExpenditure = totalExpenditure,
          totalProjectIncome = totalProjectIncome,
          totalProjectExpenditure = finalProjectExpenditure,
          netIncome = netIncome,
          monthlyRepayment = currentMonthlyRepayment,
          afterGraceRepayment = afterGraceRepayment,
          gracePeriodRepayment = gracePeriodRepayment,
          dscr = dscr,
          incomeTax = monthlyIncomeTax,
          maintenanceCost = maintenanceCost,
          bankFinanceAmount = bankFinanceAmount\<rparr>)"

section \<open>Derived values of the form (src/app/hooks/useEMICalculator.ts)\<close>

text \<open>
  The state of the hook, and the values it derives from the form data alone (the
  callback of its first \<open>useMemo\<close>).
\<close>

record HookState =
  formData :: FormDataStrings
  selectedLoanType :: string
  isAfterGrace :: bool
  scenario :: Scenario

record Derived =
  projectCost :: number
  equity :: number
  bankFinance :: number
  equityAmt :: number

definition derivedValues :: "HookState \<Rightarrow> Derived" where
  "derivedValues st =
     (let projectCost = getNumericValue (FormDataStrings.totalProjectCost (formData st));
          equity = getNumericValue (FormDataStrings.equityPercentage (formData st))
      in \<lparr>projectCost = projectCost,
          equity = equity,
          bankFinance = calculateBankFinanceAmount projectCost equity,
          equityAmt = calculateEquityAmount projectCost equity\<rparr>)"

text \<open>The default form data of the hook: empty fields read as 0.\<close>

definition DEFAULT_FORM_DATA :: FormDataStrings where
  "DEFAULT_FORM_DATA =
     \<lparr>FormDataStrings.salary = ''80000'', rent = [], other = [], projectIncome = [],
      existingLoans = [], totalProjectCost = ''1800000'', equityPercentage = ''10'',
      rate = ''9.0'', repaymentPeriod = ''240'', gracePeriod = []\<rparr>"

text \<open>
  The numeric input of the concrete scenario of the specification (section 8); it is
  what the default form data converts to.
\<close>

definition loanInput :: FormData where
  "loanInput =
     \<lparr>salary = Fin 80000, rent = Fin 0, other = Fin 0, projectIncome = Fin 0,
      existingLoans = Fin 0, totalProjectCost = Fin 1800000, equityPercentage = Fin 10,
      rate = Fin 9, repaymentPeriod = Fin 240, gracePeriod = Fin 0\<rparr>"

text \<open>
  Three further form inputs used as examples: no income with a loan of 1200 at rate 0
  over 12 months; the same with the tenure left empty; and a monthly salary of
  \<open>1e15\<close>.
\<close>

definition zeroIncomeForm :: FormDataStrings where
  "zeroIncomeForm =
     \<lparr>FormDataStrings.salary = [], rent = [], other = [], projectIncome = [],
      existingLoans = [], totalProjectCost = ''1200'', equityPercentage = [],
      rate = ''0'', repaymentPeriod = ''12'', gracePeriod = []\<rparr>"

definition noTenureForm :: FormDataStrings where
  "noTenureForm =
     \<lparr>FormDataStrings.salary = [], rent = [], other = [], projectIncome = [],
      existingLoans = [], totalProjectCost = ''1200'', equityPercentage = [],
      rate = ''0'', repaymentPeriod = [], gracePeriod = []\<rparr>"

definition highSalaryForm :: FormDataStrings where
  "highSalaryForm =
     \<lparr>FormDataStrings.salary = ''1e15'', rent = [], other = [], projectIncome = [],
      existingLoans = [], totalProjectCost = [], equityPercentage = [],
      rate = [], repaymentPeriod = [], gracePeriod = []\<rparr>"

section \<open>Facts about the numbers\<close>

subsection \<open>Leading digit\<close>

lemma ndig_pos: "1 \<le> ndig b n"
proof (induction b n rule: ndig.induct)
  case (1 b n)
  show ?case
  proof (cases "b < 2 \<or> n < b")
    case True
    then show ?thesis by (subst ndig.simps) simp
  next
    case False
    with 1 have "1 \<le> ndig b (n div b)" by simp
    with False show ?thesis by (subst ndig.simps) simp
  qed
qed

lemma ndig_bounds:
  "2 \<le> b \<Longrightarrow> 1 \<le> n \<Longrightarrow> b ^ nat (ndig b n - 1) \<le> n \<and> n < b ^ nat (ndig b n)"
proof (induction b n rule: ndig.induct)
  case (1 b n)
  show ?case
  proof (cases "n < b")
    case True
    then have "ndig b n = 1" by (subst ndig.simps) simp
    with True 1 show ?thesis by simp
  next
    case False
    let ?m = "n div b"
    have m1: "1 \<le> ?m"
      using pos_imp_zdiv_pos_iff [of b n] False "1.prems" by simp
    from False 1 have eq: "ndig b n = 1 + ndig b ?m" by (subst ndig.simps) simp
    from "1.IH" "1.prems" False m1 have IH: "b ^ nat (ndig b ?m - 1) \<le> ?m \<and> ?m < b ^ nat (ndig b ?m)" by simp
    have dpos: "1 \<le> ndig b ?m" by (rule ndig_pos)
    have n1: "nat (ndig b n - 1) = Suc (nat (ndig b ?m - 1))" using eq dpos by simp
    have n2: "nat (ndig b n) = Suc (nat (ndig b ?m))" using eq dpos by simp
    have b0: "0 < b" using "1.prems" by simp
    have dm: "n = b * ?m + n mod b" by simp
    have r0: "0 \<le> n mod b" and r1: "n mod b < b" using b0 by simp_all
    have "b * b ^ nat (ndig b ?m - 1) \<le> b * ?m" using IH b0 by simp
    moreover have "b * ?m \<le> n" using dm r0 by linarith
    ultimately have lo: "b ^ nat (ndig b n - 1) \<le> n" using n1 by simp
    have "?m + 1 \<le> b ^ nat (ndig b ?m)" using IH by simp
    then have "b * (?m + 1) \<le> b * b ^ nat (ndig b ?m)" using b0 by simp
    moreover have "n < b * (?m + 1)"
    proof -
      have "n < b * ?m + b" using dm r1 by linarith
      then show ?thesis by (simp add: algebra_simps)
    qed
    ultimately have hi: "n < b ^ nat (ndig b n)" using n2 by simp
    from lo hi show ?thesis by simp
  qed
qed

lemma ndig_bounds_rat:
  assumes "2 \<le> b" "1 \<le> n"
  shows "(of_int b :: rat) powi (ndig b n - 1) \<le> of_int n"
    and "(of_int n :: rat) < of_int b powi (ndig b n)"
proof -
  have d: "1 \<le> ndig b n" by (rule ndig_pos)
  from ndig_bounds [OF assms] have lo: "b ^ nat (ndig b n - 1) \<le> n" and hi: "n < b ^ nat (ndig b n)"
    by simp_all
  have "(of_int b :: rat) powi (ndig b n - 1) = of_int (b ^ nat (ndig b n - 1))"
    using d by (simp add: power_int_def)
  also have "\<dots> \<le> of_int n" using lo by (simp only: of_int_le_iff)
  finally show "(of_int b :: rat) powi (ndig b n - 1) \<le> of_int n" .
  have "(of_int n :: rat) < of_int (b ^ nat (ndig b n))" using hi by (simp only: of_int_less_iff)
  also have "\<dots> = of_int b powi (ndig b n)" using d by (simp add: power_int_def)
  finally show "(of_int n :: rat) < of_int b powi (ndig b n)" .
qed

lemma fexp_bounds:
  assumes b: "2 \<le> b" and x: "x \<noteq> 0"
  shows "(of_int b :: rat) powi (fexp b x) \<le> \<bar>x\<bar>" and "\<bar>x\<bar> < of_int b powi (fexp b x + 1)"
proof -
  let ?B = "of_int b :: rat"
  have B1: "1 < ?B" using b by simp
  have both: "?B powi (fexp b x) \<le> \<bar>x\<bar> \<and> \<bar>x\<bar> < ?B powi (fexp b x + 1)"
  proof (cases "1 \<le> \<bar>x\<bar>")
    case True
    let ?n = "\<lfloor>\<bar>x\<bar>\<rfloor>"
    have n1: "1 \<le> ?n" using True by simp
    have e: "fexp b x = ndig b ?n - 1" using True by (simp add: fexp_def)
    have "?B powi (ndig b ?n - 1) \<le> of_int ?n" by (rule ndig_bounds_rat [OF b n1])
    also have "\<dots> \<le> \<bar>x\<bar>" by simp
    finally have lo: "?B powi (fexp b x) \<le> \<bar>x\<bar>" using e by simp
    have "?n < b ^ nat (ndig b ?n)" using ndig_bounds [OF b n1] by simp
    then have "?n + 1 \<le> b ^ nat (ndig b ?n)" by simp
    then have "(of_int (?n + 1) :: rat) \<le> of_int (b ^ nat (ndig b ?n))" by (simp only: of_int_le_iff)
    moreover have "\<bar>x\<bar> < of_int (?n + 1)" by linarith
    moreover have "(of_int (b ^ nat (ndig b ?n)) :: rat) = ?B powi (ndig b ?n)"
      using ndig_pos [of b ?n] by (simp add: power_int_def)
    ultimately have "\<bar>x\<bar> < ?B powi (fexp b x + 1)" using e by simp
    with lo show ?thesis by simp
  next
    case False
    let ?y = "1 / \<bar>x\<bar>"
    let ?f = "\<lfloor>?y\<rfloor>"
    have x0: "0 < \<bar>x\<bar>" using x by simp
    have y1: "1 < ?y" using False x0 by simp
    have f1: "1 \<le> ?f" using y1 by simp
    show ?thesis
    proof (cases "of_int ?f = ?y")
      case True
      let ?n = "?f - 1"
      have e: "fexp b x = - ndig b ?n" using False True by (simp add: fexp_def Let_def)
      have "(1 :: rat) < of_int ?f" by (subst True) (rule y1)
      then have "1 < ?f" by (simp only: of_int_1_less_iff)
      then have n1: "1 \<le> ?n" by simp
      let ?k = "ndig b ?n"
      have lo: "?B powi (?k - 1) \<le> of_int ?n" and hi: "(of_int ?n :: rat) < ?B powi ?k"
        by (rule ndig_bounds_rat [OF b n1])+
      have "?n < b ^ nat ?k" using ndig_bounds [OF b n1] by simp
      then have "?f \<le> b ^ nat ?k" by simp
      then have "(of_int ?f :: rat) \<le> of_int (b ^ nat ?k)" by (simp only: of_int_le_iff)
      also have "\<dots> = ?B powi ?k" using ndig_pos [of b ?n] by (simp add: power_int_def)
      finally have yk: "?y \<le> ?B powi ?k" using True by simp
      have "?B powi (?k - 1) < of_int ?f" using lo by simp
      then have yk1: "?B powi (?k - 1) < ?y" using True by simp
      have Bk: "0 < ?B powi ?k" "0 < ?B powi (?k - 1)" using B1 by simp_all
      have "1 / (?B powi ?k) \<le> \<bar>x\<bar>"
        using yk x0 Bk by (simp add: field_simps)
      then have a: "?B powi (- ?k) \<le> \<bar>x\<bar>" by (simp add: power_int_minus field_simps)
      have "\<bar>x\<bar> < 1 / (?B powi (?k - 1))"
        using yk1 x0 Bk by (simp add: field_simps)
      then have c: "\<bar>x\<bar> < ?B powi (- ?k + 1)"
        using power_int_minus [of ?B "?k - 1"] by (simp add: field_simps)
      from a c e show ?thesis by simp
    next
      case neq: False
      let ?n = "?f"
      have e: "fexp b x = - ndig b ?n" using False neq by (simp add: fexp_def Let_def)
      let ?k = "ndig b ?n"
      have lo: "?B powi (?k - 1) \<le> of_int ?n" and hi: "(of_int ?n :: rat) < ?B powi ?k"
        by (rule ndig_bounds_rat [OF b f1])+
      have "?n < b ^ nat ?k" using ndig_bounds [OF b f1] by simp
      then have "?f + 1 \<le> b ^ nat ?k" by simp
      then have "(of_int (?f + 1) :: rat) \<le> of_int (b ^ nat ?k)" by (simp only: of_int_le_iff)
      also have "\<dots> = ?B powi ?k" using ndig_pos [of b ?n] by (simp add: power_int_def)
      finally have "(of_int (?f + 1) :: rat) \<le> ?B powi ?k" .
      moreover have "?y < of_int (?f + 1)" by linarith
      ultimately have yk: "?y \<le> ?B powi ?k" by simp
      have fy: "of_int ?f \<le> ?y" by simp
      from neq fy have "of_int ?f < ?y" by (rule order.not_eq_order_implies_strict)
      with lo have yk1: "?B powi (?k - 1) < ?y" by simp
      have Bk: "0 < ?B powi ?k" "0 < ?B powi (?k - 1)" using B1 by simp_all
      have "1 / (?B powi ?k) \<le> \<bar>x\<bar>"
        using yk x0 Bk by (simp add: field_simps)
      then have a: "?B powi (- ?k) \<le> \<bar>x\<bar>" by (simp add: power_int_minus field_simps)
      have "\<bar>x\<bar> < 1 / (?B powi (?k - 1))"
        using yk1 x0 Bk by (simp add: field_simps)
      then have c: "\<bar>x\<bar> < ?B powi (- ?k + 1)"
        using power_int_minus [of ?B "?k - 1"] by (simp add: field_simps)
      from a c e show ?thesis by simp
    qed
  qed
  from both show "?B powi (fexp b x) \<le> \<bar>x\<bar>" and "\<bar>x\<bar> < ?B powi (fexp b x + 1)" by simp_all
qed


lemma fexp_unique:
  assumes b: "2 \<le> b" and lo: "(of_int b :: rat) powi e \<le> \<bar>x\<bar>" and hi: "\<bar>x\<bar> < of_int b powi (e + 1)"
  shows "fexp b x = e"
proof -
  let ?B = "of_int b :: rat"
  have B1: "1 < ?B" using b by simp
  have "0 < ?B powi e" using B1 by simp
  with lo have x: "x \<noteq> 0" by auto
  note fb = fexp_bounds [OF b x]
  have "?B powi (fexp b x) < ?B powi (e + 1)" using fb(1) hi by simp
  then have 1: "fexp b x < e + 1"
    using B1 power_int_increasing [of "e + 1" "fexp b x" ?B] by (cases "fexp b x < e + 1") auto
  have "?B powi e < ?B powi (fexp b x + 1)" using fb(2) lo by simp
  then have 2: "e < fexp b x + 1"
    using B1 power_int_increasing [of "fexp b x + 1" e ?B] by (cases "e < fexp b x + 1") auto
  from 1 2 show ?thesis by simp
qed

lemma fexp_mono:
  assumes b: "2 \<le> b" and x: "x \<noteq> 0" and xy: "\<bar>x\<bar> \<le> \<bar>y\<bar>"
  shows "fexp b x \<le> fexp b y"
proof -
  let ?B = "of_int b :: rat"
  have B1: "1 < ?B" using b by simp
  have y: "y \<noteq> 0" using x xy by auto
  have "?B powi (fexp b x) \<le> \<bar>x\<bar>" by (rule fexp_bounds [OF b x])
  also have "\<bar>x\<bar> \<le> \<bar>y\<bar>" by (rule xy)
  also have "\<bar>y\<bar> < ?B powi (fexp b y + 1)" by (rule fexp_bounds [OF b y])
  finally have "?B powi (fexp b x) < ?B powi (fexp b y + 1)" .
  then have "fexp b x < fexp b y + 1"
    using B1 power_int_increasing [of "fexp b y + 1" "fexp b x" ?B]
    by (cases "fexp b x < fexp b y + 1") auto
  then show ?thesis by simp
qed

lemma fexp_minus [simp]: "fexp b (- x) = fexp b x"
  by (simp add: fexp_def)

lemma fexp_abs [simp]: "fexp b \<bar>x\<bar> = fexp b x"
  by (simp add: fexp_def)

subsection \<open>The two integer roundings\<close>

definition nearest :: "(rat \<Rightarrow> int) \<Rightarrow> bool" where
  "nearest r \<longleftrightarrow>
     (\<forall>q. \<bar>of_int (r q) - q\<bar> \<le> 1 / 2) \<and> (\<forall>q q'. q \<le> q' \<longrightarrow> r q \<le> r q') \<and>
     (\<forall>n. r (of_int n) = n) \<and> (\<forall>q. r (- q) = - r q)"

lemma round_half_up_alt: "round_half_up q = (if q < 0 then - round \<bar>q\<bar> else round \<bar>q\<bar>)"
  by (simp add: round_half_up_def round_def)

lemma nearest_round_half_up: "nearest round_half_up"
  unfolding nearest_def
proof (intro conjI allI impI)
  fix q :: rat
  have h: "\<bar>of_int (round \<bar>q\<bar>) - \<bar>q\<bar>\<bar> \<le> 1 / 2" by (rule of_int_round_abs_le)
  show "\<bar>of_int (round_half_up q) - q\<bar> \<le> 1 / 2"
  proof (cases "q < 0")
    case True
    then have r: "round_half_up q = - round \<bar>q\<bar>" by (simp add: round_half_up_alt)
    have "\<bar>- of_int (round \<bar>q\<bar>) - q\<bar> \<le> 1 / 2" using h True by linarith
    then show ?thesis by (simp only: r of_int_minus)
  next
    case False
    then have r: "round_half_up q = round \<bar>q\<bar>" by (simp add: round_half_up_alt)
    have "\<bar>of_int (round \<bar>q\<bar>) - q\<bar> \<le> 1 / 2" using h False by linarith
    then show ?thesis by (simp only: r)
  qed
next
  fix q q' :: rat assume le: "q \<le> q'"
  have nn: "\<And>a::rat. 0 \<le> a \<Longrightarrow> 0 \<le> round a"
    using round_mono [of 0] by fastforce
  show "round_half_up q \<le> round_half_up q'"
  proof (cases "q < 0")
    case True note q = this
    show ?thesis
    proof (cases "q' < 0")
      case True
      with q le have "\<bar>q'\<bar> \<le> \<bar>q\<bar>" by simp
      then have "round \<bar>q'\<bar> \<le> round \<bar>q\<bar>" by (rule round_mono)
      with q True show ?thesis by (simp add: round_half_up_alt)
    next
      case False
      have "0 \<le> round \<bar>q\<bar>" "0 \<le> round \<bar>q'\<bar>" by (rule nn, simp)+
      with q False show ?thesis by (simp add: round_half_up_alt)
    qed
  next
    case False
    with le have "\<not> q' < 0" and "\<bar>q\<bar> \<le> \<bar>q'\<bar>" by simp_all
    with False show ?thesis by (simp add: round_half_up_alt round_mono)
  qed
next
  fix n show "round_half_up (of_int n) = n"
  proof (cases "n < 0")
    case True
    have "\<bar>of_int n :: rat\<bar> = of_int (- n)" using True by simp
    then have "round \<bar>of_int n :: rat\<bar> = - n" by (simp only: round_of_int)
    with True show ?thesis by (simp add: round_half_up_alt)
  next
    case False
    have "\<bar>of_int n :: rat\<bar> = of_int n" using False by simp
    then have "round \<bar>of_int n :: rat\<bar> = n" by (simp only: round_of_int)
    with False show ?thesis by (simp add: round_half_up_alt)
  qed
next
  fix q :: rat show "round_half_up (- q) = - round_half_up q"
    by (cases "q < 0"; cases "q = 0") (auto simp: round_half_up_alt)
qed



definition half_even_abs :: "rat \<Rightarrow> int" where
  "half_even_abs a =
     (if a - of_int \<lfloor>a\<rfloor> < 1 / 2 then \<lfloor>a\<rfloor>
      else if 1 / 2 < a - of_int \<lfloor>a\<rfloor> then \<lfloor>a\<rfloor> + 1
      else if even \<lfloor>a\<rfloor> then \<lfloor>a\<rfloor> else \<lfloor>a\<rfloor> + 1)"

lemma round_half_even_alt:
  "round_half_even q = (if q < 0 then - half_even_abs \<bar>q\<bar> else half_even_abs \<bar>q\<bar>)"
  by (simp add: round_half_even_def half_even_abs_def Let_def)

lemma half_even_abs_cases:
  "half_even_abs a = \<lfloor>a\<rfloor> \<and> a - of_int \<lfloor>a\<rfloor> \<le> 1 / 2
   \<or> half_even_abs a = \<lfloor>a\<rfloor> + 1 \<and> 1 / 2 \<le> a - of_int \<lfloor>a\<rfloor>"
  by (auto simp: half_even_abs_def)

lemma half_even_abs_err: "\<bar>of_int (half_even_abs a) - a\<bar> \<le> 1 / 2"
proof -
  have 1: "of_int \<lfloor>a\<rfloor> \<le> a" and 2: "a < of_int \<lfloor>a\<rfloor> + 1" by linarith+
  from half_even_abs_cases [of a] show ?thesis
  proof
    assume "half_even_abs a = \<lfloor>a\<rfloor> \<and> a - of_int \<lfloor>a\<rfloor> \<le> 1 / 2"
    with 1 2 show ?thesis by simp
  next
    assume "half_even_abs a = \<lfloor>a\<rfloor> + 1 \<and> 1 / 2 \<le> a - of_int \<lfloor>a\<rfloor>"
    with 1 2 show ?thesis by simp
  qed
qed

lemma half_even_abs_of_int: "half_even_abs (of_int n) = n"
  by (simp add: half_even_abs_def)

lemma half_even_abs_ge_floor: "\<lfloor>a\<rfloor> \<le> half_even_abs a"
  using half_even_abs_cases [of a] by auto

lemma half_even_abs_le_floor: "half_even_abs a \<le> \<lfloor>a\<rfloor> + 1"
  using half_even_abs_cases [of a] by auto

lemma half_even_abs_mono:
  assumes "a \<le> a'"
  shows "half_even_abs a \<le> half_even_abs a'"
proof (cases "\<lfloor>a\<rfloor> = \<lfloor>a'\<rfloor>")
  case True
  with assms have "a - of_int \<lfloor>a\<rfloor> \<le> a' - of_int \<lfloor>a'\<rfloor>" by simp
  with True show ?thesis
    by (auto simp: half_even_abs_def)
next
  case False
  from assms have "\<lfloor>a\<rfloor> \<le> \<lfloor>a'\<rfloor>" by (rule floor_mono)
  with False have "\<lfloor>a\<rfloor> + 1 \<le> \<lfloor>a'\<rfloor>" by simp
  with half_even_abs_le_floor [of a] half_even_abs_ge_floor [of a'] show ?thesis by linarith
qed

lemma half_even_abs_nonneg: "0 \<le> a \<Longrightarrow> 0 \<le> half_even_abs a"
  using half_even_abs_mono [of 0 a] by (simp add: half_even_abs_def)

lemma nearest_round_half_even: "nearest round_half_even"
  unfolding nearest_def
proof (intro conjI allI impI)
  fix q :: rat
  have h: "\<bar>of_int (half_even_abs \<bar>q\<bar>) - \<bar>q\<bar>\<bar> \<le> 1 / 2" by (rule half_even_abs_err)
  show "\<bar>of_int (round_half_even q) - q\<bar> \<le> 1 / 2"
  proof (cases "q < 0")
    case True
    then have r: "round_half_even q = - half_even_abs \<bar>q\<bar>" by (simp add: round_half_even_alt)
    have "\<bar>- of_int (half_even_abs \<bar>q\<bar>) - q\<bar> \<le> 1 / 2" using h True by linarith
    then show ?thesis by (simp only: r of_int_minus)
  next
    case False
    then have r: "round_half_even q = half_even_abs \<bar>q\<bar>" by (simp add: round_half_even_alt)
    have "\<bar>of_int (half_even_abs \<bar>q\<bar>) - q\<bar> \<le> 1 / 2" using h False by linarith
    then show ?thesis by (simp only: r)
  qed
next
  fix q q' :: rat assume le: "q \<le> q'"
  show "round_half_even q \<le> round_half_even q'"
  proof (cases "q < 0")
    case True note q = this
    show ?thesis
    proof (cases "q' < 0")
      case True
      with q le have "\<bar>q'\<bar> \<le> \<bar>q\<bar>" by simp
      then have "half_even_abs \<bar>q'\<bar> \<le> half_even_abs \<bar>q\<bar>" by (rule half_even_abs_mono)
      with q True show ?thesis by (simp add: round_half_even_alt)
    next
      case False
      have "0 \<le> half_even_abs \<bar>q\<bar>" "0 \<le> half_even_abs \<bar>q'\<bar>"
        by (rule half_even_abs_nonneg, simp)+
      with q False show ?thesis by (simp add: round_half_even_alt)
    qed
  next
    case False
    with le have "\<not> q' < 0" and "\<bar>q\<bar> \<le> \<bar>q'\<bar>" by simp_all
    with False show ?thesis by (simp add: round_half_even_alt half_even_abs_mono)
  qed
next
  fix n show "round_half_even (of_int n) = n"
  proof (cases "n < 0")
    case True
    have "\<bar>of_int n :: rat\<bar> = of_int (- n)" using True by simp
    then have "half_even_abs \<bar>of_int n :: rat\<bar> = - n" by (simp only: half_even_abs_of_int)
    with True show ?thesis by (simp add: round_half_even_alt)
  next
    case False
    have "\<bar>of_int n :: rat\<bar> = of_int n" using False by simp
    then have "half_even_abs \<bar>of_int n :: rat\<bar> = n" by (simp only: half_even_abs_of_int)
    with False show ?thesis by (simp add: round_half_even_alt)
  qed
next
  fix q :: rat show "round_half_even (- q) = - round_half_even q"
    by (cases "q < 0"; cases "q = 0") (auto simp: round_half_even_alt half_even_abs_def)
qed



subsection \<open>Rounding to a multiple of a unit\<close>

lemma round_at_err:
  assumes "nearest r" "0 < u"
  shows "\<bar>round_at r u x - x\<bar> \<le> u / 2"
proof -
  from assms(1) have "\<bar>of_int (r (x / u)) - x / u\<bar> \<le> 1 / 2" by (simp add: nearest_def)
  then have "\<bar>of_int (r (x / u)) - x / u\<bar> * u \<le> 1 / 2 * u"
    using assms(2) by (simp only: mult_le_cancel_right) simp
  moreover have "\<bar>of_int (r (x / u)) - x / u\<bar> * u = \<bar>of_int (r (x / u)) * u - x\<bar>"
  proof -
    have "\<bar>of_int (r (x / u)) - x / u\<bar> * u = \<bar>(of_int (r (x / u)) - x / u) * u\<bar>"
      using assms(2) by (simp add: abs_mult)
    also have "(of_int (r (x / u)) - x / u) * u = of_int (r (x / u)) * u - x"
      using assms(2) by (simp add: algebra_simps)
    finally show ?thesis .
  qed
  ultimately show ?thesis by (simp add: round_at_def)
qed

lemma round_at_mono:
  assumes "nearest r" "0 < u" "x \<le> y"
  shows "round_at r u x \<le> round_at r u y"
proof -
  have "x / u \<le> y / u" using assms(2,3) by (simp add: divide_right_mono)
  with assms(1) have "r (x / u) \<le> r (y / u)" by (simp add: nearest_def)
  then have "(of_int (r (x / u)) :: rat) \<le> of_int (r (y / u))" by simp
  then show ?thesis using assms(2) by (simp add: round_at_def)
qed

lemma round_at_fix:
  assumes "nearest r" "u \<noteq> 0"
  shows "round_at r u (of_int n * u) = of_int n * u"
  using assms by (simp add: round_at_def nearest_def)

lemma round_at_minus:
  assumes "nearest r"
  shows "round_at r u (- x) = - round_at r u x"
  using assms by (simp add: round_at_def nearest_def)

lemma round_at_0:
  assumes "nearest r"
  shows "round_at r u 0 = 0"
  using assms round_at_minus [OF assms, of u 0] by simp

subsection \<open>Rounding to significant digits\<close>

definition round_sig :: "(rat \<Rightarrow> int) \<Rightarrow> int \<Rightarrow> int \<Rightarrow> int \<Rightarrow> rat \<Rightarrow> rat" where
  "round_sig r b p emin x = round_at r (of_int b powi (max (fexp b x) emin - p + 1)) x"

lemma powi_split:
  assumes "2 \<le> b" "0 \<le> k"
  shows "(of_int b :: rat) powi (e + k) = of_int (b ^ nat k) * of_int b powi e"
proof -
  have "(of_int b :: rat) \<noteq> 0" using assms(1) by simp
  then have "(of_int b :: rat) powi (e + k) = of_int b powi e * of_int b powi k"
    by (simp add: power_int_add)
  also have "(of_int b :: rat) powi k = of_int (b ^ nat k)"
    using assms(2) by (simp add: power_int_def)
  finally show ?thesis by (simp add: mult.commute)
qed

lemma round_sig_minus:
  assumes "nearest r"
  shows "round_sig r b p emin (- x) = - round_sig r b p emin x"
  by (simp add: round_sig_def round_at_minus [OF assms])

lemma round_sig_0:
  assumes "nearest r"
  shows "round_sig r b p emin 0 = 0"
  by (simp add: round_sig_def round_at_0 [OF assms])

lemma round_sig_range:
  assumes r: "nearest r" and b: "2 \<le> b" and p: "1 \<le> p" and x: "0 < x"
  shows "0 \<le> round_sig r b p emin x"
    and "round_sig r b p emin x \<le> of_int b powi (max (fexp b x) emin + 1)"
    and "emin \<le> fexp b x \<Longrightarrow> of_int b powi (fexp b x) \<le> round_sig r b p emin x"
proof -
  let ?B = "of_int b :: rat"
  let ?E = "max (fexp b x) emin"
  let ?u = "?B powi (?E - p + 1)"
  have B1: "1 < ?B" using b by simp
  have u0: "0 < ?u" using B1 by simp
  have x0: "x \<noteq> 0" using x by simp
  have une: "?u \<noteq> 0" using u0 by (metis less_irrefl)
  have "round_at r ?u 0 \<le> round_at r ?u x" using r u0 x by (intro round_at_mono) simp_all
  then show "0 \<le> round_sig r b p emin x" by (simp add: round_sig_def round_at_0 [OF r])
  have hi: "?B powi (?E + 1) = of_int (b ^ nat p) * ?u"
    using powi_split [OF b, of p "?E - p + 1"] p by (simp add: algebra_simps)
  have "x < ?B powi (fexp b x + 1)" using fexp_bounds(2) [OF b x0] x by simp
  also have "\<dots> \<le> ?B powi (?E + 1)" using B1 by (intro power_int_increasing) simp_all
  finally have "x \<le> ?B powi (?E + 1)" by simp
  then have "round_at r ?u x \<le> round_at r ?u (?B powi (?E + 1))"
    using r u0 by (intro round_at_mono)
  also have "round_at r ?u (?B powi (?E + 1)) = ?B powi (?E + 1)"
    unfolding hi by (rule round_at_fix [OF r une])
  finally show "round_sig r b p emin x \<le> ?B powi (?E + 1)" by (simp add: round_sig_def)
  show "?B powi (fexp b x) \<le> round_sig r b p emin x" if e: "emin \<le> fexp b x"
  proof -
    have E: "?E = fexp b x" using e by simp
    have lo: "?B powi ?E = of_int (b ^ nat (p - 1)) * ?u"
      using powi_split [OF b, of "p - 1" "?E - p + 1"] p by (simp add: algebra_simps)
    have "?B powi ?E \<le> x" using fexp_bounds(1) [OF b x0] x E by simp
    then have "round_at r ?u (?B powi ?E) \<le> round_at r ?u x"
      using r u0 by (intro round_at_mono)
    moreover have "round_at r ?u (?B powi ?E) = ?B powi ?E"
      unfolding lo by (rule round_at_fix [OF r une])
    ultimately show ?thesis using E by (simp add: round_sig_def)
  qed
qed



lemma round_sig_mono_pos:
  assumes r: "nearest r" and b: "2 \<le> b" and p: "1 \<le> p" and x: "0 < x" and xy: "x \<le> y"
  shows "round_sig r b p emin x \<le> round_sig r b p emin y"
proof -
  let ?B = "of_int b :: rat"
  let ?Ex = "max (fexp b x) emin"
  let ?Ey = "max (fexp b y) emin"
  have B1: "1 < ?B" using b by simp
  have y: "0 < y" using x xy by simp
  have "fexp b x \<le> fexp b y" using fexp_mono [OF b, of x y] x xy by simp
  then have E: "?Ex \<le> ?Ey" by simp
  show ?thesis
  proof (cases "?Ex = ?Ey")
    case True
    have "0 < ?B powi (?Ex - p + 1)" using B1 by simp
    from round_at_mono [OF r this xy] show ?thesis by (simp add: round_sig_def True)
  next
    case False
    with E have lt: "?Ex + 1 \<le> ?Ey" by simp
    then have ey: "emin \<le> fexp b y" and Ey: "?Ey = fexp b y" by auto
    have "round_sig r b p emin x \<le> ?B powi (?Ex + 1)" by (rule round_sig_range(2) [OF r b p x])
    also have "\<dots> \<le> ?B powi ?Ey" using B1 lt by (intro power_int_increasing) simp_all
    also have "\<dots> \<le> round_sig r b p emin y"
      using round_sig_range(3) [OF r b p y ey] Ey by simp
    finally show ?thesis .
  qed
qed

lemma round_sig_mono:
  assumes r: "nearest r" and b: "2 \<le> b" and p: "1 \<le> p" and xy: "x \<le> y"
  shows "round_sig r b p emin x \<le> round_sig r b p emin y"
proof -
  consider "0 < x" | "x \<le> 0" "0 \<le> y" | "y < 0" by linarith
  then show ?thesis
  proof cases
    case 1
    then show ?thesis by (rule round_sig_mono_pos [OF r b p _ xy])
  next
    case 2
    have "round_sig r b p emin x \<le> 0"
    proof (cases "x = 0")
      case True then show ?thesis by (simp add: round_sig_0 [OF r])
    next
      case False
      with 2 have "0 < - x" by simp
      from round_sig_range(1) [OF r b p this, of emin] show ?thesis
        by (simp add: round_sig_minus [OF r])
    qed
    moreover have "0 \<le> round_sig r b p emin y"
    proof (cases "y = 0")
      case True then show ?thesis by (simp add: round_sig_0 [OF r])
    next
      case False
      with 2 have "0 < y" by simp
      from round_sig_range(1) [OF r b p this] show ?thesis .
    qed
    ultimately show ?thesis by simp
  next
    case 3
    with xy have "0 < - y" "- y \<le> - x" by simp_all
    from round_sig_mono_pos [OF r b p this, of emin] show ?thesis
      by (simp add: round_sig_minus [OF r])
  qed
qed

lemma round_sig_err:
  assumes r: "nearest r" and b: "2 \<le> b"
  shows "\<bar>round_sig r b p emin x - x\<bar> \<le> of_int b powi (max (fexp b x) emin - p + 1) / 2"
proof -
  have "0 < (of_int b :: rat) powi (max (fexp b x) emin - p + 1)" using b by simp
  from round_at_err [OF r this] show ?thesis by (simp add: round_sig_def)
qed

lemma round_sig_rel_err:
  assumes r: "nearest r" and b: "2 \<le> b" and e: "emin \<le> fexp b x" and x: "x \<noteq> 0"
  shows "\<bar>round_sig r b p emin x - x\<bar> \<le> of_int b powi (1 - p) / 2 * \<bar>x\<bar>"
proof -
  let ?B = "of_int b :: rat"
  have B0: "?B \<noteq> 0" and B1: "1 < ?B" using b by simp_all
  have E: "max (fexp b x) emin = fexp b x" using e by simp
  have "?B powi (fexp b x - p + 1) = ?B powi (1 - p) * ?B powi (fexp b x)"
    using B0 power_int_add [of ?B "1 - p" "fexp b x"] by (simp add: algebra_simps)
  also have "\<dots> \<le> ?B powi (1 - p) * \<bar>x\<bar>"
    using fexp_bounds(1) [OF b x] B1 by (intro mult_left_mono) simp_all
  finally have "?B powi (fexp b x - p + 1) / 2 \<le> ?B powi (1 - p) / 2 * \<bar>x\<bar>" by simp
  with round_sig_err [OF r b, of p emin x] E show ?thesis by simp
qed

lemma round_sig_idem:
  assumes r: "nearest r" and b: "2 \<le> b" and p: "1 \<le> p"
  shows "round_sig r b p emin (round_sig r b p emin x) = round_sig r b p emin x"
proof -
  let ?B = "of_int b :: rat"
  have B1: "1 < ?B" using b by simp
  have pos: "round_sig r b p emin (round_sig r b p emin x) = round_sig r b p emin x" if x: "0 < x" for x
  proof -
    let ?y = "round_sig r b p emin x"
    let ?E = "max (fexp b x) emin"
    let ?u = "?B powi (?E - p + 1)"
    have u0: "0 < ?u" using B1 by simp
    have une: "?u \<noteq> 0" using u0 by (metis less_irrefl)
    have ym: "?y = of_int (r (x / ?u)) * ?u" by (simp add: round_sig_def round_at_def)
    have y0: "0 \<le> ?y" and yhi: "?y \<le> ?B powi (?E + 1)"
      by (rule round_sig_range [OF r b p x])+
    have yabs: "\<bar>?y\<bar> = ?y" using y0 by simp
    show ?thesis
    proof (cases "?y = 0")
      case True
      then show ?thesis by (simp add: round_sig_0 [OF r])
    next
      case False
      with y0 have ypos: "0 < ?y" by simp
      show ?thesis
      proof (cases "?y = ?B powi (?E + 1)")
        case True
        have fy: "fexp b ?y = ?E + 1"
        proof (rule fexp_unique [OF b])
          show "?B powi (?E + 1) \<le> \<bar>?y\<bar>" unfolding yabs using True by simp
          have "?B powi (?E + 1) < ?B powi (?E + 1 + 1)"
            using B1 by (intro power_int_strict_increasing) simp_all
          then show "\<bar>?y\<bar> < ?B powi (?E + 1 + 1)" unfolding yabs using True by simp
        qed
        have m: "max (fexp b ?y) emin = ?E + 1" using fy by simp
        let ?u' = "?B powi (?E + 1 - p + 1)"
        have u'0: "?u' \<noteq> 0" using B1 by simp
        have "?B powi (?E + 1) = of_int (b ^ nat (p - 1)) * ?u'"
          using powi_split [OF b, of "p - 1" "?E + 1 - p + 1"] p by (simp add: algebra_simps)
        then have "?y = of_int (b ^ nat (p - 1)) * ?u'" using True by simp
        then have "round_at r ?u' ?y = ?y"
          using round_at_fix [OF r u'0, of "b ^ nat (p - 1)"] by simp
        then show ?thesis by (simp add: round_sig_def [of r b p emin ?y] m)
      next
        case neq: False
        with yhi have ylt: "?y < ?B powi (?E + 1)" by simp
        have m: "max (fexp b ?y) emin = ?E"
        proof (cases "emin \<le> fexp b x")
          case True
          then have E: "?E = fexp b x" by simp
          have "fexp b ?y = ?E"
          proof (rule fexp_unique [OF b])
            show "?B powi ?E \<le> \<bar>?y\<bar>"
              unfolding yabs using round_sig_range(3) [OF r b p x True] E by simp
            show "\<bar>?y\<bar> < ?B powi (?E + 1)" unfolding yabs using ylt by simp
          qed
          then show ?thesis by simp
        next
          case False
          then have E: "?E = emin" by simp
          have yne: "?y \<noteq> 0" using ypos by simp
          have "?B powi (fexp b ?y) \<le> \<bar>?y\<bar>" by (rule fexp_bounds(1) [OF b yne])
          also have "\<bar>?y\<bar> < ?B powi (emin + 1)" unfolding yabs using ylt E by simp
          finally have "?B powi (fexp b ?y) < ?B powi (emin + 1)" .
          then have "fexp b ?y < emin + 1"
            using B1 power_int_increasing [of "emin + 1" "fexp b ?y" ?B]
            by (cases "fexp b ?y < emin + 1") auto
          then show ?thesis using E by simp
        qed
        have "round_at r ?u ?y = ?y"
          using round_at_fix [OF r une, of "r (x / ?u)"] ym by simp
        then show ?thesis by (simp add: round_sig_def [of r b p emin ?y] m)
      qed
    qed
  qed
  consider "0 < x" | "x = 0" | "0 < - x" by linarith
  then show ?thesis
  proof cases
    case 1 then show ?thesis by (rule pos)
  next
    case 2 then show ?thesis by (simp add: round_sig_0 [OF r])
  next
    case 3
    from pos [OF this] show ?thesis by (simp add: round_sig_minus [OF r])
  qed
qed



lemma fexp_ge:
  assumes b: "2 \<le> b" and lo: "(of_int b :: rat) powi e \<le> \<bar>y\<bar>"
  shows "e \<le> fexp b y"
proof -
  let ?B = "of_int b :: rat"
  have B1: "1 < ?B" using b by simp
  have "0 < ?B powi e" using B1 by simp
  with lo have y: "y \<noteq> 0" by auto
  have "?B powi e < ?B powi (fexp b y + 1)" using lo fexp_bounds(2) [OF b y] by simp
  then have "e < fexp b y + 1"
    using B1 power_int_increasing [of "fexp b y + 1" e ?B] by (cases "e < fexp b y + 1") auto
  then show ?thesis by simp
qed

lemma fexp_le:
  assumes b: "2 \<le> b" and y: "y \<noteq> 0" and hi: "\<bar>y\<bar> < (of_int b :: rat) powi (e + 1)"
  shows "fexp b y \<le> e"
proof -
  let ?B = "of_int b :: rat"
  have B1: "1 < ?B" using b by simp
  have "?B powi (fexp b y) < ?B powi (e + 1)" using hi fexp_bounds(1) [OF b y] by simp
  then have "fexp b y < e + 1"
    using B1 power_int_increasing [of "e + 1" "fexp b y" ?B] by (cases "fexp b y < e + 1") auto
  then show ?thesis by simp
qed

subsection \<open>The order on numbers\<close>

lemma le_refl_Fin [simp]: "le (Fin a) (Fin a)"
  by simp

lemma le_negate: "le a b \<Longrightarrow> le (negate b) (negate a)"
  by (cases a; cases b) simp_all

lemma le_trans: "le a b \<Longrightarrow> le b c \<Longrightarrow> le a c"
  by (cases a; cases b; cases c) simp_all

lemma gt_le: "le a b \<Longrightarrow> \<not> gt a b"
  by (cases a; cases b) simp_all

lemma negate_negate [simp]: "negate (negate a) = a"
  by (cases a) simp_all

subsection \<open>Rounding to the precision of Decimal\<close>

lemma round_sd_sig:
  "emin \<le> fexp 10 x \<Longrightarrow> round_sd x = round_sig round_half_up 10 28 emin x"
  by (simp add: round_sd_def round_sig_def max_def)

lemma round_sd_0 [simp]: "round_sd 0 = 0"
  by (simp add: round_sd_def round_at_0 [OF nearest_round_half_up])

lemma round_sd_minus: "round_sd (- x) = - round_sd x"
  by (simp add: round_sd_def round_at_minus [OF nearest_round_half_up])

lemma round_sd_mono:
  assumes "x \<le> y"
  shows "round_sd x \<le> round_sd y"
proof -
  let ?e = "min (fexp 10 x) (fexp 10 y)"
  have x: "round_sd x = round_sig round_half_up 10 28 ?e x" by (rule round_sd_sig) simp
  have y: "round_sd y = round_sig round_half_up 10 28 ?e y" by (rule round_sd_sig) simp
  show ?thesis
    unfolding x y using assms by (intro round_sig_mono [OF nearest_round_half_up]) simp_all
qed

lemma round_sd_idem: "round_sd (round_sd x) = round_sd x"
proof (cases "x = 0")
  case True then show ?thesis by simp
next
  case False
  let ?e = "min (fexp 10 x) (fexp 10 (round_sd x))"
  have "round_sd (round_sd x) = round_sig round_half_up 10 28 ?e (round_sd x)"
    by (rule round_sd_sig) simp
  also have "round_sd x = round_sig round_half_up 10 28 ?e x"
    by (rule round_sd_sig) simp
  finally show ?thesis
    using round_sig_idem [OF nearest_round_half_up, of 10 28 ?e x] round_sd_sig [of ?e x] by simp
qed

lemma round_sd_lower:
  assumes "0 < x"
  shows "10 powi (fexp 10 x) \<le> round_sd x"
  using round_sig_range(3) [OF nearest_round_half_up, of 10 28 x "fexp 10 x"] assms
    round_sd_sig [of "fexp 10 x" x] by simp

lemma round_sd_pos: "0 < x \<Longrightarrow> 0 < round_sd x"
proof -
  assume x: "0 < x"
  have "(0::rat) < 10 powi (fexp 10 x)" by simp
  with round_sd_lower [OF x] show ?thesis by linarith
qed

lemma round_sd_eq_0_iff [simp]: "round_sd x = 0 \<longleftrightarrow> x = 0"
proof
  assume r: "round_sd x = 0"
  show "x = 0"
  proof (rule ccontr)
    assume "x \<noteq> 0"
    then consider "0 < x" | "0 < - x" by linarith
    then show False
    proof cases
      case 1 from round_sd_pos [OF this] r show False by simp
    next
      case 2 from round_sd_pos [OF this] r show False by (simp add: round_sd_minus)
    qed
  qed
qed simp

lemma fexp_round_sd_ge:
  assumes "x \<noteq> 0"
  shows "fexp 10 x \<le> fexp 10 (round_sd x)"
proof -
  have "10 powi (fexp 10 x) \<le> \<bar>round_sd x\<bar>"
  proof (cases "0 < x")
    case True
    from round_sd_lower [OF this] round_sd_pos [OF this] show ?thesis by simp
  next
    case False
    with assms have x: "0 < - x" by simp
    from round_sd_lower [OF this] round_sd_pos [OF this] show ?thesis
      by (simp add: round_sd_minus)
  qed
  then show ?thesis using fexp_ge [of 10 "fexp 10 x" "round_sd x"] by simp
qed



subsection \<open>finalise\<close>

lemma finalise_0 [simp]: "finalise 0 = Fin 0"
  by (simp add: finalise_def)

lemma finalise_not_NaN [simp]: "finalise x \<noteq> NaN"
  by (simp add: finalise_def Let_def)

lemma finalise_minus: "finalise (- x) = negate (finalise x)"
  by (simp add: finalise_def Let_def round_sd_minus)

lemma finalise_pos_cases:
  assumes "0 < x"
  shows "finalise x = PosInf \<or> finalise x = Fin 0 \<or> finalise x = Fin (round_sd x)"
  using assms by (simp add: finalise_def Let_def)

lemma finalise_nonneg:
  assumes "0 \<le> x"
  shows "le (Fin 0) (finalise x)"
proof (cases "x = 0")
  case True then show ?thesis by simp
next
  case False
  with assms have x: "0 < x" by simp
  from finalise_pos_cases [OF x] round_sd_pos [OF x] show ?thesis by auto
qed

lemma finalise_mono_pos:
  assumes x: "0 < x" and xy: "x \<le> y"
  shows "le (finalise x) (finalise y)"
proof -
  have y: "0 < y" using x xy by simp
  have r: "round_sd x \<le> round_sd y" by (rule round_sd_mono [OF xy])
  have rx: "0 < round_sd x" by (rule round_sd_pos [OF x])
  have "fexp 10 (round_sd x) \<le> fexp 10 (round_sd y)"
    using fexp_mono [of 10 "round_sd x" "round_sd y"] r rx x by simp
  with r rx x y show ?thesis
    by (simp add: finalise_def Let_def minE_def maxE_def)
qed

lemma finalise_mono:
  assumes xy: "x \<le> y"
  shows "le (finalise x) (finalise y)"
proof -
  consider "0 < x" | "x \<le> 0" "0 \<le> y" | "y < 0" by linarith
  then show ?thesis
  proof cases
    case 1 then show ?thesis using xy by (rule finalise_mono_pos)
  next
    case 2
    have "le (Fin 0) (finalise (- x))" using 2 by (intro finalise_nonneg) simp
    then have "le (finalise x) (Fin 0)"
      using le_negate [of "Fin 0" "finalise (- x)"] by (simp add: finalise_minus)
    moreover have "le (Fin 0) (finalise y)" using 2 by (intro finalise_nonneg)
    ultimately show ?thesis by (rule le_trans)
  next
    case 3
    with xy have "0 < - y" "- y \<le> - x" by simp_all
    from finalise_mono_pos [OF this] have "le (negate (finalise y)) (negate (finalise x))"
      by (simp add: finalise_minus)
    from le_negate [OF this] show ?thesis by simp
  qed
qed

lemma finalise_idem:
  assumes "finalise x = Fin y"
  shows "finalise y = Fin y"
proof (cases "x = 0")
  case True with assms show ?thesis by simp
next
  case False
  show ?thesis
  proof (cases "y = 0")
    case True then show ?thesis by simp
  next
    case y: False
    from assms False y have yr: "y = round_sd x"
      and e: "\<not> maxE < fexp 10 (round_sd x)" "\<not> fexp 10 (round_sd x) < minE"
      by (auto simp: finalise_def Let_def split: if_splits)
    have "round_sd y = y" unfolding yr by (rule round_sd_idem)
    with y e yr show ?thesis by (simp add: finalise_def Let_def)
  qed
qed

subsection \<open>to_double\<close>

lemma to_double_sig:
  "to_double x =
     (if x = 0 then Fin 0
      else if 2 powi 1024 \<le> \<bar>round_sig round_half_even 2 53 (- 1022) x\<bar>
           then (if 0 < x then PosInf else NegInf)
           else Fin (round_sig round_half_even 2 53 (- 1022) x))"
  by (simp add: to_double_def round_sig_def Let_def)

lemma to_double_0 [simp]: "to_double 0 = Fin 0"
  by (simp add: to_double_def)

lemma to_double_not_NaN [simp]: "to_double x \<noteq> NaN"
  by (simp add: to_double_def Let_def)

lemma to_double_minus: "to_double (- x) = negate (to_double x)"
  by (simp add: to_double_sig round_sig_minus [OF nearest_round_half_even])

lemma to_double_nonneg:
  assumes "0 \<le> x"
  shows "le (Fin 0) (to_double x)"
proof (cases "x = 0")
  case True then show ?thesis by simp
next
  case False
  with assms have x: "0 < x" by simp
  from round_sig_range(1) [OF nearest_round_half_even _ _ x, of 2 53 "- 1022"] x
  show ?thesis by (simp add: to_double_sig)
qed

lemma to_double_mono_pos:
  assumes x: "0 < x" and xy: "x \<le> y"
  shows "le (to_double x) (to_double y)"
proof -
  let ?R = "round_sig round_half_even 2 53 (- 1022)"
  have y: "0 < y" using x xy by simp
  have r: "?R x \<le> ?R y" using xy by (intro round_sig_mono [OF nearest_round_half_even]) simp_all
  have "0 \<le> ?R x" "0 \<le> ?R y"
    using round_sig_range(1) [OF nearest_round_half_even, of 2 53] x y by simp_all
  with r x y show ?thesis by (simp add: to_double_sig)
qed

lemma to_double_mono:
  assumes xy: "x \<le> y"
  shows "le (to_double x) (to_double y)"
proof -
  consider "0 < x" | "x \<le> 0" "0 \<le> y" | "y < 0" by linarith
  then show ?thesis
  proof cases
    case 1 then show ?thesis using xy by (rule to_double_mono_pos)
  next
    case 2
    have "le (Fin 0) (to_double (- x))" using 2 by (intro to_double_nonneg) simp
    then have "le (to_double x) (Fin 0)"
      using le_negate [of "Fin 0" "to_double (- x)"] by (simp add: to_double_minus)
    moreover have "le (Fin 0) (to_double y)" using 2 by (intro to_double_nonneg)
    ultimately show ?thesis by (rule le_trans)
  next
    case 3
    with xy have "0 < - y" "- y \<le> - x" by simp_all
    from to_double_mono_pos [OF this] have "le (negate (to_double y)) (negate (to_double x))"
      by (simp add: to_double_minus)
    from le_negate [OF this] show ?thesis by simp
  qed
qed

lemma to_double_idem:
  assumes "to_double x = Fin d"
  shows "to_double d = Fin d"
proof (cases "x = 0")
  case True with assms show ?thesis by simp
next
  case False
  let ?R = "round_sig round_half_even 2 53 (- 1022)"
  from assms False have d: "d = ?R x" and lt: "\<not> 2 powi 1024 \<le> \<bar>?R x\<bar>"
    by (auto simp: to_double_sig split: if_splits)
  have "?R d = d" unfolding d by (rule round_sig_idem [OF nearest_round_half_even]) simp_all
  with lt d show ?thesis by (simp add: to_double_sig)
qed



subsection \<open>toNumber\<close>

lemma shortest_from_reads_back:
  "to_double d = Fin d \<Longrightarrow> to_double (shortest_from k d) = Fin d"
proof (induction k d rule: shortest_from.induct)
  case (1 k d)
  show ?case
  proof (cases "17 < k")
    case True
    then show ?thesis using "1.prems" by (subst shortest_from.simps) simp
  next
    case False
    show ?thesis
    proof (cases "find (\<lambda>c. to_double c = Fin d) (cands d k)")
      case None
      with False "1.IH" "1.prems" show ?thesis by (subst shortest_from.simps) simp
    next
      case (Some c)
      then have "to_double c = Fin d" by (auto simp: find_Some_iff)
      with False Some show ?thesis by (subst shortest_from.simps) simp
    qed
  qed
qed

lemma shortest_reads_back:
  assumes "to_double d = Fin d"
  shows "to_double (shortest d) = Fin d"
proof -
  consider "d = 0" | "0 < d" | "d < 0" by linarith
  then show ?thesis
  proof cases
    case 1 then show ?thesis by (simp add: shortest_def)
  next
    case 2
    with shortest_from_reads_back [OF assms, of 1] show ?thesis by (simp add: shortest_def)
  next
    case 3
    have "to_double (- d) = Fin (- d)" using assms by (simp add: to_double_minus)
    from shortest_from_reads_back [OF this, of 1] 3 show ?thesis
      by (simp add: shortest_def to_double_minus)
  qed
qed

lemma toNumber_Fin:
  "toNumber (Fin q) = (case to_double q of Fin d \<Rightarrow> Fin (shortest d) | y \<Rightarrow> y)"
  by (simp add: toNumber_def)

lemma toNumber_simps [simp]:
  "toNumber PosInf = PosInf" "toNumber NegInf = NegInf" "toNumber NaN = NaN"
  "toNumber (Fin 0) = Fin 0"
  by (simp_all add: toNumber_def shortest_def)

lemma toNumber_NaN_iff [simp]: "toNumber x = NaN \<longleftrightarrow> x = NaN"
  by (cases x) (auto simp: toNumber_def split: number.splits)

lemma toNumber_idem [simp]: "toNumber (toNumber x) = toNumber x"
proof (cases x)
  case (Fin q)
  show ?thesis
  proof (cases "to_double q")
    case (Fin d)
    then have "to_double d = Fin d" by (rule to_double_idem)
    then have "to_double (shortest d) = Fin d" by (rule shortest_reads_back)
    with Fin \<open>x = Fin q\<close> show ?thesis by (simp add: toNumber_Fin)
  qed (simp_all add: \<open>x = Fin q\<close> toNumber_Fin)
qed simp_all

lemma shortest_mono:
  assumes d: "to_double d = Fin d" and d': "to_double d' = Fin d'" and le: "d \<le> d'"
  shows "shortest d \<le> shortest d'"
proof (cases "d = d'")
  case True then show ?thesis by simp
next
  case False
  show ?thesis
  proof (rule ccontr)
    assume "\<not> shortest d \<le> shortest d'"
    then have "shortest d' \<le> shortest d" by simp
    then have "le (to_double (shortest d')) (to_double (shortest d))" by (rule to_double_mono)
    then have "d' \<le> d" by (simp add: shortest_reads_back [OF d] shortest_reads_back [OF d'])
    with le False show False by simp
  qed
qed

lemma toNumber_mono:
  assumes "le x y"
  shows "le (toNumber x) (toNumber y)"
proof (cases x)
  case x: (Fin q)
  show ?thesis
  proof (cases y)
    case y: (Fin q')
    from assms x y have "q \<le> q'" by simp
    then have m: "le (to_double q) (to_double q')" by (rule to_double_mono)
    show ?thesis
    proof (cases "to_double q")
      case dq: (Fin d)
      show ?thesis
      proof (cases "to_double q'")
        case dq': (Fin d')
        from m dq dq' have "d \<le> d'" by simp
        with to_double_idem [OF dq] to_double_idem [OF dq'] have "shortest d \<le> shortest d'"
          by (intro shortest_mono)
        with x y dq dq' show ?thesis by (simp add: toNumber_Fin)
      qed (use m x y dq in \<open>simp_all add: toNumber_Fin\<close>)
    qed (use m x y in \<open>auto simp: toNumber_Fin split: number.splits\<close>)
  qed (use assms x in \<open>auto simp: toNumber_Fin split: number.splits\<close>)
qed (use assms in \<open>auto simp: toNumber_Fin split: number.splits elim: le.elims\<close>)

subsection \<open>Evaluation at concrete numbers\<close>

lemma floor_rat_numeral: "\<lfloor>numeral a / numeral b :: rat\<rfloor> = numeral a div numeral b"
  using floor_divide_of_int_eq [of "numeral a" "numeral b", where ?'a = rat] by simp

lemma ndig_base: "n < b \<Longrightarrow> ndig b n = 1"
  by (simp add: ndig.simps)

lemma ndig_step: "2 \<le> b \<Longrightarrow> b \<le> n \<Longrightarrow> ndig b n = 1 + ndig b (n div b)"
  by (subst ndig.simps) simp

lemma shortest_from_step:
  "k \<le> 17 \<Longrightarrow>
   shortest_from k d =
     (case find (\<lambda>c. to_double c = Fin d) (cands d k) of
        Some c \<Rightarrow> c
      | None \<Rightarrow> shortest_from (k + 1) d)"
  by (subst shortest_from.simps) simp

lemmas num_eval =
  power_divide fexp_def ndig_base ndig_step round_half_even_def round_half_up_def Let_def
  floor_rat_numeral to_double_def finalise_def round_sd_def round_at_def maxE_def minE_def
  toNumber_def shortest_def cands_def shortest_from_step

lemmas parse_eval =
  parseFloat_def parse_signed_def parse_unsigned_def parse_fraction_def
  parse_exponent_def exp_digits_def digitsVal_def isDigit_def isWhiteSpace_def

subsection \<open>The error of the roundings\<close>

text \<open>
  \<open>Number.MAX_VALUE\<close>, the largest finite binary64. The other three constants are the
  absolute errors that the bounds below need: a Decimal that underflows is below
  \<open>dec_tiny\<close>, a binary64 below \<open>2^-1022\<close> is rounded to a multiple of \<open>2^-1074\<close> with an
  error of at most \<open>dbl_tiny\<close>, and a value up to \<open>MAX_VALUE + dbl_gap\<close> is still rounded
  to a finite binary64.
\<close>

definition MAX_VALUE :: rat where
  "MAX_VALUE = (2 ^ 53 - 1) * 2 ^ 971"

definition dec_tiny :: rat where
  "dec_tiny = 10 powi minE"

definition dbl_tiny :: rat where
  "dbl_tiny = 1 / 2 ^ 1075"

definition dbl_gap :: rat where
  "dbl_gap = 2 ^ 969"

lemma MAX_VALUE_dec: "200 * MAX_VALUE < of_int 10 powi (400 + 1)"
  by (simp add: MAX_VALUE_def)

lemma MAX_VALUE_gap: "MAX_VALUE = (2 ^ 55 - 4) * dbl_gap"
  by (simp add: MAX_VALUE_def dbl_gap_def)

lemma dbl_tiny_pos: "0 < dbl_tiny"
  by (simp add: dbl_tiny_def)

lemma dec_tiny_nonneg: "0 \<le> dec_tiny"
  by (simp add: dec_tiny_def)

lemma finalise_err:
  assumes x: "\<bar>x\<bar> \<le> 200 * MAX_VALUE"
  shows "\<exists>y. finalise x = Fin y \<and> \<bar>y - x\<bar> \<le> \<bar>x\<bar> / 10 ^ 27 + dec_tiny"
proof (cases "x = 0")
  case True then show ?thesis by (simp add: dec_tiny_nonneg)
next
  case x0: False
  let ?y = "round_sd x"
  have y0: "?y \<noteq> 0" using x0 by simp
  have rs: "?y = round_sig round_half_up 10 28 (fexp 10 x) x"
    by (rule round_sd_sig) simp
  have "\<bar>x\<bar> < (of_int 10 :: rat) powi (400 + 1)"
    using x MAX_VALUE_dec by (rule le_less_trans)
  from fexp_le [OF _ x0 this] have fx: "fexp 10 x \<le> 400" by simp
  have ylt: "\<bar>?y\<bar> \<le> (of_int 10 :: rat) powi (fexp 10 x + 1)"
  proof (cases "0 < x")
    case True
    from round_sig_range(1,2) [OF nearest_round_half_up _ _ True, of 10 28 "fexp 10 x"]
    show ?thesis using rs by simp
  next
    case False
    then have nx: "0 < - x" using x0 by simp
    from round_sig_range(1,2) [OF nearest_round_half_up _ _ nx, of 10 28 "fexp 10 (- x)"]
    show ?thesis using rs by (simp add: round_sig_minus [OF nearest_round_half_up])
  qed
  also have "\<dots> < of_int 10 powi (fexp 10 x + 1 + 1)"
    by (intro power_int_strict_increasing) simp_all
  finally have "\<bar>?y\<bar> < (of_int 10 :: rat) powi (fexp 10 x + 1 + 1)" .
  from fexp_le [OF _ y0 this] have fy: "fexp 10 ?y \<le> fexp 10 x + 1" by simp
  have nomax: "\<not> maxE < fexp 10 ?y" using fx fy by (simp add: maxE_def)
  show ?thesis
  proof (cases "fexp 10 ?y < minE")
    case True
    then have f: "finalise x = Fin 0" using x0 nomax by (simp add: finalise_def Let_def)
    have "fexp 10 x < minE" using fexp_round_sd_ge [OF x0] True by simp
    then have "fexp 10 x + 1 \<le> minE" by simp
    then have "(of_int 10 :: rat) powi (fexp 10 x + 1) \<le> of_int 10 powi minE"
      by (intro power_int_increasing) simp_all
    with fexp_bounds(2) [of 10 x] x0 have "\<bar>x\<bar> \<le> dec_tiny" by (simp add: dec_tiny_def)
    moreover have "0 \<le> \<bar>x\<bar> / 10 ^ 27" by simp
    ultimately have "\<bar>0 - x\<bar> \<le> \<bar>x\<bar> / 10 ^ 27 + dec_tiny" by simp
    with f show ?thesis by blast
  next
    case False
    then have f: "finalise x = Fin ?y" using x0 nomax by (simp add: finalise_def Let_def)
    from round_sig_rel_err [OF nearest_round_half_up, of 10 "fexp 10 x" x 28] x0 rs
    have "\<bar>?y - x\<bar> \<le> 10 powi (1 - 28) / 2 * \<bar>x\<bar>" by simp
    also have "\<dots> \<le> \<bar>x\<bar> / 10 ^ 27" by (simp add: power_int_minus field_simps)
    finally have "\<bar>?y - x\<bar> \<le> \<bar>x\<bar> / 10 ^ 27 + dec_tiny" using dec_tiny_nonneg by simp
    with f show ?thesis by blast
  qed
qed

lemma to_double_err:
  assumes "to_double x = Fin d"
  shows "\<bar>d - x\<bar> \<le> \<bar>x\<bar> / 2 ^ 53 + dbl_tiny"
proof (cases "x = 0")
  case True with assms show ?thesis using dbl_tiny_pos by simp
next
  case x0: False
  let ?y = "round_sig round_half_even 2 53 (- 1022) x"
  have d: "d = ?y" using assms x0 by (simp add: to_double_sig split: if_splits)
  show ?thesis
  proof (cases "- 1022 \<le> fexp 2 x")
    case True
    from round_sig_rel_err [OF nearest_round_half_even _ True x0, of 53]
    have "\<bar>?y - x\<bar> \<le> 2 powi (1 - 53) / 2 * \<bar>x\<bar>" by simp
    also have "\<dots> = \<bar>x\<bar> / 2 ^ 53" by (simp add: power_int_minus field_simps)
    finally show ?thesis using d dbl_tiny_pos by simp
  next
    case False
    then have m: "max (fexp 2 x) (- 1022) = - 1022" by simp
    from round_sig_err [OF nearest_round_half_even, of 2 53 "- 1022" x]
    have "\<bar>?y - x\<bar> \<le> 2 powi (- 1022 - 53 + 1) / 2" by (simp add: m)
    also have "\<dots> = dbl_tiny" by (simp add: power_int_minus field_simps dbl_tiny_def)
    finally have "\<bar>?y - x\<bar> \<le> dbl_tiny" .
    moreover have "0 \<le> \<bar>x\<bar> / 2 ^ 53" by simp
    ultimately show ?thesis using d by linarith
  qed
qed


lemma round_at_multiple:
  assumes "u \<noteq> 0"
  shows "round_at r u (q * u) = of_int (r q) * u"
  using assms by (simp add: round_at_def)

lemma to_double_top: "to_double (MAX_VALUE + dbl_gap) = Fin MAX_VALUE"
proof -
  let ?T = "MAX_VALUE + dbl_gap"
  have T: "?T = (36028797018963965 / 4) * 2 powi 971"
    by (simp add: MAX_VALUE_def dbl_gap_def)
  have lo: "(of_int 2 :: rat) powi 1023 \<le> \<bar>?T\<bar>"
    by (simp add: MAX_VALUE_def dbl_gap_def)
  have hi: "\<bar>?T\<bar> < (of_int 2 :: rat) powi (1023 + 1)"
    by (simp add: MAX_VALUE_def dbl_gap_def)
  have f: "fexp 2 ?T = 1023" by (rule fexp_unique [OF _ lo hi]) simp
  have r: "round_half_even (36028797018963965 / 4) = 9007199254740991"
    by (simp add: round_half_even_def Let_def floor_rat_numeral)
  have "round_at round_half_even (2 powi (max (fexp 2 ?T) (- 1022) - 52)) ?T
        = round_at round_half_even (2 powi 971) ((36028797018963965 / 4) * 2 powi 971)"
    by (simp only: f T [symmetric]) simp
  also have "\<dots> = of_int (round_half_even (36028797018963965 / 4)) * 2 powi 971"
    by (rule round_at_multiple) simp
  also have "\<dots> = MAX_VALUE" by (simp only: r) (simp add: MAX_VALUE_def)
  finally have y: "round_at round_half_even (2 powi (max (fexp 2 ?T) (- 1022) - 52)) ?T = MAX_VALUE" .
  have nz: "?T \<noteq> 0" using lo by auto
  have pos: "0 < ?T" by (simp add: MAX_VALUE_def dbl_gap_def)
  have lt: "\<not> 2 powi 1024 \<le> \<bar>MAX_VALUE\<bar>" by (simp add: MAX_VALUE_def)
  show ?thesis unfolding to_double_def using nz y lt by (simp add: Let_def)
qed

lemma to_double_finite:
  assumes "\<bar>x\<bar> \<le> MAX_VALUE + dbl_gap"
  shows "\<exists>d. to_double x = Fin d"
proof -
  have a: "le (to_double x) (Fin MAX_VALUE)"
    using to_double_mono [of x "MAX_VALUE + dbl_gap"] assms by (simp add: to_double_top)
  have m: "to_double (- (MAX_VALUE + dbl_gap)) = Fin (- MAX_VALUE)"
    by (simp only: to_double_minus to_double_top negate.simps)
  have "- (MAX_VALUE + dbl_gap) \<le> x" using assms by linarith
  from to_double_mono [OF this] have b: "le (Fin (- MAX_VALUE)) (to_double x)"
    by (simp only: m)
  from a b show ?thesis by (cases "to_double x") simp_all
qed

lemma toNumber_err:
  assumes "\<bar>x\<bar> \<le> MAX_VALUE + dbl_gap"
  shows "\<exists>s. toNumber (Fin x) = Fin s \<and> \<bar>s - x\<bar> \<le> \<bar>x\<bar> / 2 ^ 51 + 3 * dbl_tiny"
proof -
  from to_double_finite [OF assms] obtain d where d: "to_double x = Fin d" by blast
  have dd: "to_double d = Fin d" by (rule to_double_idem [OF d])
  have t: "toNumber (Fin x) = Fin (shortest d)" by (simp add: toNumber_Fin d)
  have e1: "\<bar>d - x\<bar> \<le> \<bar>x\<bar> / 2 ^ 53 + dbl_tiny" by (rule to_double_err [OF d])
  have e2: "\<bar>d - shortest d\<bar> \<le> \<bar>shortest d\<bar> / 2 ^ 53 + dbl_tiny"
    by (rule to_double_err [OF shortest_reads_back [OF dd]])
  have "\<bar>shortest d - x\<bar> \<le> \<bar>x\<bar> / 2 ^ 51 + 3 * dbl_tiny"
    using e1 e2 dbl_tiny_pos by (simp add: abs_if split: if_splits) 
  with t show ?thesis by blast
qed


lemma MAX_VALUE_ge_1: "1 \<le> MAX_VALUE"
  by (simp add: MAX_VALUE_def)

lemma tiny_gap16: "16 * dbl_tiny \<le> dbl_gap"
  by (simp add: dbl_gap_def dbl_tiny_def)

lemma dbl_tiny_le_1: "dbl_tiny \<le> 1"
  by (simp add: dbl_tiny_def)

lemma powi_neg_nat: "(x::rat) powi (- int n) = (1 / x) ^ n"
  by (simp add: power_int_minus power_one_over field_simps)

lemma half_power_scaled:
  assumes "k + m + 7 \<le> n"
  shows "(100::rat) * (2 ^ m * (1 / 2) ^ n) \<le> (1 / 2) ^ k"
proof -
  obtain j where n: "n = j + (7 + (m + k))" using assms by (metis add.commute add.assoc le_Suc_ex)
  have "(100::rat) * (2 ^ m * (1 / 2) ^ n)
        = (100 * (1 / 2) ^ 7) * (2 ^ m * (1 / 2) ^ m) * (1 / 2) ^ j * (1 / 2) ^ k"
    by (simp only: n power_add) (simp only: mult_ac)
  also have "2 ^ m * (1 / 2) ^ m = (1::rat)" by (simp add: power_one_over)
  finally have eq: "(100::rat) * (2 ^ m * (1 / 2) ^ n)
        = ((100 * (1 / 2) ^ 7) * (1 / 2) ^ j) * (1 / 2) ^ k" by simp
  have h7: "(100::rat) * (1 / 2) ^ 7 \<le> 1" by (simp add: power_one_over)
  have h0: "0 \<le> (100::rat) * (1 / 2) ^ 7" by simp
  have hj: "(1 / 2 :: rat) ^ j \<le> 1" by (rule power_le_one) simp_all
  have hj0: "0 \<le> (1 / 2 :: rat) ^ j" by simp
  have "(100 * (1 / 2) ^ 7) * (1 / 2) ^ j \<le> (1::rat)"
    using mult_le_one [OF h7 hj0 hj] .
  then have "((100 * (1 / 2) ^ 7) * (1 / 2) ^ j) * (1 / 2) ^ k \<le> 1 * (1 / 2 :: rat) ^ k"
    by (rule mult_right_mono) simp
  with eq show ?thesis by simp
qed

lemma scale_chain:
  fixes \<eta> :: rat
  assumes "0 \<le> \<eta>" "\<eta> \<le> x" "x \<le> y" "0 \<le> M" "M \<le> A" "100 * (A * y) \<le> v"
  shows "100 * (M * \<eta>) \<le> v"
proof -
  have "M * \<eta> \<le> A * y" using assms by (intro mult_mono) simp_all
  with assms(6) show ?thesis by simp
qed

lemma dec_tiny_scaled: "100 * (MAX_VALUE * dec_tiny) \<le> dbl_tiny"
proof -
  have m: "MAX_VALUE \<le> 2 ^ 1024" by (simp add: MAX_VALUE_def)
  have "minE \<le> - int 2200" by (simp add: minE_def)
  then have "(10::rat) powi minE \<le> 10 powi (- int 2200)"
    by (intro power_int_increasing) simp_all
  then have e1: "dec_tiny \<le> (1 / 10) ^ 2200"
    by (simp only: dec_tiny_def powi_neg_nat)
  have e2: "(1 / 10 :: rat) ^ 2200 \<le> (1 / 2) ^ 2200" by (rule power_mono) simp_all
  have e3: "(100::rat) * (2 ^ 1024 * (1 / 2) ^ 2200) \<le> (1 / 2) ^ 1075"
    by (rule half_power_scaled) simp
  have v: "dbl_tiny = (1 / 2) ^ 1075" by (simp only: dbl_tiny_def power_one_over)
  have M0: "0 \<le> MAX_VALUE" using MAX_VALUE_ge_1 by simp
  show ?thesis
    unfolding v by (rule scale_chain [OF dec_tiny_nonneg e1 e2 M0 m e3])
qed

lemma dec_tiny_small: "100 * dec_tiny \<le> dbl_tiny"
proof -
  have "100 * (1 * dec_tiny) \<le> 100 * (MAX_VALUE * dec_tiny)"
    using MAX_VALUE_ge_1 dec_tiny_nonneg by (intro mult_left_mono mult_right_mono) simp_all
  with dec_tiny_scaled show ?thesis by simp
qed


lemma abs_mult_diff:
  fixes c :: rat
  assumes "\<bar>r - z\<bar> \<le> d"
  shows "\<bar>c * r - c * z\<bar> \<le> \<bar>c\<bar> * d"
proof -
  have "\<bar>c * r - c * z\<bar> = \<bar>c\<bar> * \<bar>r - z\<bar>" by (simp add: abs_mult right_diff_distrib [symmetric])
  also have "\<dots> \<le> \<bar>c\<bar> * d" using assms by (intro mult_left_mono) simp_all
  finally show ?thesis .
qed

lemma abs_tri:
  fixes a :: rat
  assumes "\<bar>a - b\<bar> \<le> x" "\<bar>b - c\<bar> \<le> y"
  shows "\<bar>a - c\<bar> \<le> x + y"
  using assms by linarith

lemma abs_near:
  fixes a :: rat
  assumes "\<bar>a - b\<bar> \<le> x"
  shows "\<bar>a\<bar> \<le> \<bar>b\<bar> + x"
  using assms by linarith

lemma abs_sum_near:
  fixes a :: rat
  assumes "\<bar>b - x\<bar> \<le> u" "\<bar>a - y\<bar> \<le> v" "x + y = c"
  shows "\<bar>b + a - c\<bar> \<le> u + v"
  using assms by linarith

lemma abs_sum_tri:
  fixes a :: rat
  assumes "\<bar>b - b0\<bar> \<le> u" "\<bar>a - a0\<bar> \<le> v" "\<bar>b0 + a0 - c\<bar> \<le> w"
  shows "\<bar>b + a - c\<bar> \<le> u + v + w"
  using assms by linarith

lemma scale_bound:
  fixes x :: rat
  assumes "d \<le> x / k + h" "x \<le> y" "0 < k"
  shows "d \<le> y / k + h"
proof -
  have "x / k \<le> y / k" using assms(2,3) by (simp add: divide_right_mono)
  with assms(1) show ?thesis by linarith
qed

lemma to_double_overflow:
  assumes "2 ^ 1024 \<le> x"
  shows "to_double x = PosInf"
proof -
  let ?B = "(2::rat) ^ 1024"
  let ?r = "round_sig round_half_even 2 53 (- 1022)"
  have B0: "0 < ?B" by simp
  then have x0: "0 < x" using assms by linarith
  have lo: "(of_int 2 :: rat) powi 1024 \<le> \<bar>?B\<bar>" by (simp add: power_int_def)
  have hi: "\<bar>?B\<bar> < (of_int 2 :: rat) powi (1024 + 1)" by (simp add: power_int_def)
  have f: "fexp 2 ?B = 1024" by (rule fexp_unique [OF _ lo hi]) simp
  have u: "?B = of_int 4503599627370496 * 2 powi 972" by (simp add: power_int_def)
  have "?r ?B = round_at round_half_even (2 powi 972) (of_int 4503599627370496 * 2 powi 972)"
    unfolding round_sig_def f using u by simp
  also have "\<dots> = of_int 4503599627370496 * 2 powi 972"
    by (rule round_at_fix [OF nearest_round_half_even]) simp
  finally have rB: "?r ?B = ?B" using u by simp
  have "?r ?B \<le> ?r x" by (rule round_sig_mono [OF nearest_round_half_even _ _ assms]) simp_all
  then have "2 powi 1024 \<le> \<bar>?r x\<bar>" unfolding rB by (simp add: power_int_def)
  then show ?thesis using x0 by (simp add: to_double_sig)
qed

section \<open>The fields of the result\<close>

lemma pc_totalProjectIncome:
  "totalProjectIncome (performCalculations fd sc g) =
     (if g then adjustedProjectIncome (applyScenarioMultipliers (convertToNumericFormData fd) sc)
      else Fin 0)"
  by (simp add: performCalculations_def Let_def)

lemma pc_bankFinanceAmount:
  "bankFinanceAmount (performCalculations fd sc g) =
     calculateBankFinanceAmount (totalProjectCost (convertToNumericFormData fd))
       (equityPercentage (convertToNumericFormData fd))"
  by (simp add: performCalculations_def Let_def)

lemma pc_afterGraceRepayment:
  "afterGraceRepayment (performCalculations fd sc g) =
     calculateEMI (bankFinanceAmount (performCalculations fd sc g))
       (rate (convertToNumericFormData fd)) (repaymentPeriod (convertToNumericFormData fd))"
  by (simp add: performCalculations_def Let_def)

lemma pc_gracePeriodRepayment:
  "gracePeriodRepayment (performCalculations fd sc g) =
     calculateGracePeriodPayment (bankFinanceAmount (performCalculations fd sc g))
       (rate (convertToNumericFormData fd))"
  by (simp add: performCalculations_def Let_def)

lemma pc_dscr:
  "dscr (performCalculations fd sc g) =
     (if isZero (plusD (new_Decimal (existingLoans (convertToNumericFormData fd)))
                       (new_Decimal (afterGraceRepayment (performCalculations fd sc g))))
      then Fin 0
      else toNumber (divD (new_Decimal (netIncome (performCalculations fd sc g)))
             (plusD (new_Decimal (existingLoans (convertToNumericFormData fd)))
                    (new_Decimal (afterGraceRepayment (performCalculations fd sc g))))))"
  by (simp add: performCalculations_def Let_def)

lemma pc_netIncome:
  "netIncome (performCalculations fd sc g) =
     toNumber (minusD (plusD (minusD (totalIncome (performCalculations fd sc g))
                                     (totalExpenditure (performCalculations fd sc g)))
                             (totalProjectIncome (performCalculations fd sc g)))
                      (totalProjectExpenditure (performCalculations fd sc g)))"
  by (simp add: performCalculations_def Let_def new_Decimal_def)

lemma pc_incomeTax:
  "incomeTax (performCalculations fd sc g) =
     calculateIncomeTax
       (toNumber (mulD (plusD (totalIncome (performCalculations fd sc g))
                              (totalProjectIncome (performCalculations fd sc g)))
                       (Fin 12)))"
  by (simp add: performCalculations_def Let_def new_Decimal_def)

lemma pc_totalIncome:
  "totalIncome (performCalculations fd sc g) =
     toNumber
       (plusD (plusD (adjustedSalary (applyScenarioMultipliers (convertToNumericFormData fd) sc))
                     (adjustedRent (applyScenarioMultipliers (convertToNumericFormData fd) sc)))
              (adjustedOther (applyScenarioMultipliers (convertToNumericFormData fd) sc)))"
  by (simp add: performCalculations_def Let_def new_Decimal_def)

section \<open>Helper facts about the service\<close>

lemma calculateEMI_zero_rate_all:
  "calculateEMI p (Fin 0) n = toNumber (divD p n)"
  by (simp add: calculateEMI_def Let_def new_Decimal_def isZero_def)

lemma getNumericValue_empty: "getNumericValue [] = Fin 0"
  by (simp add: getNumericValue_def parseFloat_def parse_signed_def new_Decimal_def)

subsection \<open>Decimal operations on non-negative values\<close>

lemma le_PosInf_iff [simp]: "le x PosInf \<longleftrightarrow> x \<noteq> NaN"
  by (cases x) simp_all

lemma le_NegInf_iff [simp]: "le NegInf x \<longleftrightarrow> x \<noteq> NaN"
  by (cases x) simp_all

lemma le_Fin0_cases:
  assumes "le (Fin 0) x"
  obtains (Fin) q where "x = Fin q" "0 \<le> q" | (PosInf) "x = PosInf"
  using assms by (cases x) simp_all

lemma divD_const_mono:
  assumes x: "le (Fin 0) x" and xy: "le x y" and c: "0 < c"
  shows "le (divD x (Fin c)) (divD y (Fin c))" and "le (Fin 0) (divD x (Fin c))"
proof -
  have y: "le (Fin 0) y" using x xy by (rule le_trans)
  show "le (divD x (Fin c)) (divD y (Fin c))"
    using x y xy c
    by (cases x; cases y) (simp_all add: inf_of_def finalise_mono divide_right_mono)
  show "le (Fin 0) (divD x (Fin c))"
    using x c by (cases x) (simp_all add: inf_of_def finalise_nonneg)
qed

lemma mulD_const_mono:
  assumes "0 \<le> x" "x \<le> y" "0 \<le> c"
  shows "le (mulD (Fin x) (Fin c)) (mulD (Fin y) (Fin c))" and "le (Fin 0) (mulD (Fin x) (Fin c))"
  using assms by (simp_all add: finalise_mono finalise_nonneg mult_right_mono)

lemma plusD_mono:
  assumes "le (Fin 0) x" "le x x'" "le (Fin 0) y" "le y y'"
  shows "le (plusD x y) (plusD x' y')" and "le (Fin 0) (plusD x y)"
proof -
  have x': "le (Fin 0) x'" using assms(1,2) by (rule le_trans)
  have y': "le (Fin 0) y'" using assms(3,4) by (rule le_trans)
  show "le (plusD x y) (plusD x' y')"
    using assms x' y'
    by (cases x; cases y; cases x'; cases y') (simp_all add: finalise_mono add_mono)
  show "le (Fin 0) (plusD x y)"
    using assms(1,3) by (cases x; cases y) (simp_all add: finalise_nonneg)
qed

text \<open>A running total: not negative, and a value that \<open>finalise\<close> leaves as it is.\<close>

definition settled :: "Decimal \<Rightarrow> bool" where
  "settled t \<longleftrightarrow> t = PosInf \<or> (\<exists>q. t = Fin q \<and> 0 \<le> q \<and> finalise q = Fin q)"

lemma settled_nonneg: "settled t \<Longrightarrow> le (Fin 0) t"
  by (auto simp: settled_def)

lemma settled_0 [simp]: "settled (Fin 0)"
  by (simp add: settled_def)

lemma settled_plusD:
  assumes t: "settled t" and y: "le (Fin 0) y"
  shows "settled (plusD t y)" and "le t (plusD t y)"
proof -
  from t y show "settled (plusD t y)"
  proof (cases t; cases y)
    fix a b assume ab: "t = Fin a" "y = Fin b"
    with t y have a: "0 \<le> a" and b: "0 \<le> b" by (auto simp: settled_def)
    from finalise_nonneg [of "a + b"] a b have n: "le (Fin 0) (finalise (a + b))" by simp
    show ?thesis
    proof (cases "finalise (a + b)")
      case (Fin q)
      with n finalise_idem [OF Fin] ab show ?thesis by (simp add: settled_def)
    qed (use n ab in \<open>simp_all add: settled_def\<close>)
  qed (auto simp: settled_def)
  from t y show "le t (plusD t y)"
  proof (cases t; cases y)
    fix a b assume ab: "t = Fin a" "y = Fin b"
    with t y have a: "finalise a = Fin a" and b: "0 \<le> b" by (auto simp: settled_def)
    have "le (finalise a) (finalise (a + b))" using b by (intro finalise_mono) simp
    with a ab show ?thesis by simp
  qed (auto simp: settled_def)
qed



subsection \<open>One bracket of the tax table\<close>

text \<open>The upper bound the code uses for a bracket.\<close>

definition bracketMax_of :: "TaxBracket \<Rightarrow> Decimal" where
  "bracketMax_of bracket = (if max_b bracket = PosInf then MAX_SAFE_INTEGER else max_b bracket)"

text \<open>
  A bracket with a finite lower bound, a rate that is not negative and a width (as the
  code computes it) that is not negative.
\<close>

definition good_bracket :: "TaxBracket \<Rightarrow> bool" where
  "good_bracket bracket \<longleftrightarrow>
     (\<exists>m \<rho> w. min_b bracket = Fin m \<and> rate_b bracket = Fin \<rho> \<and> 0 \<le> \<rho> \<and>
        minusD (bracketMax_of bracket) (Fin m) = Fin w \<and> 0 \<le> w)"

lemma bracketStep_alt:
  "bracketStep income bracket tax =
     (if gt income (min_b bracket) then
        plusD tax
          (divD (mulD (minD (minusD income (min_b bracket))
                            (minusD (bracketMax_of bracket) (min_b bracket)))
                      (rate_b bracket))
                (Fin 100))
      else tax)"
  by (simp add: bracketStep_def bracketMax_of_def new_Decimal_def Let_def)

lemma taxable_mono:
  assumes am: "m < a" and ab: "a \<le> b" and w: "0 \<le> w"
  shows "\<exists>s t. minD (minusD (Fin a) (Fin m)) (Fin w) = Fin s
           \<and> minD (minusD (Fin b) (Fin m)) (Fin w) = Fin t \<and> 0 \<le> s \<and> s \<le> t"
proof -
  have xa: "le (Fin 0) (finalise (a - m))" using am by (intro finalise_nonneg) simp
  have xb: "le (Fin 0) (finalise (b - m))" using am ab by (intro finalise_nonneg) simp
  have xab: "le (finalise (a - m)) (finalise (b - m))" using ab by (intro finalise_mono) simp
  from xa xb xab w show ?thesis
    by (cases "finalise (a - m)"; cases "finalise (b - m)") auto
qed

lemma bracketTax_mono:
  assumes am: "m < a" and ab: "a \<le> b" and w: "0 \<le> w" and r: "0 \<le> \<rho>"
  shows "le (divD (mulD (minD (minusD (Fin a) (Fin m)) (Fin w)) (Fin \<rho>)) (Fin 100))
            (divD (mulD (minD (minusD (Fin b) (Fin m)) (Fin w)) (Fin \<rho>)) (Fin 100))"
    and "le (Fin 0) (divD (mulD (minD (minusD (Fin a) (Fin m)) (Fin w)) (Fin \<rho>)) (Fin 100))"
proof -
  from taxable_mono [OF am ab w] obtain s t where
    s: "minD (minusD (Fin a) (Fin m)) (Fin w) = Fin s" and
    t: "minD (minusD (Fin b) (Fin m)) (Fin w) = Fin t" and st: "0 \<le> s" "s \<le> t"
    by blast
  note m = mulD_const_mono [OF st r]
  show "le (divD (mulD (minD (minusD (Fin a) (Fin m)) (Fin w)) (Fin \<rho>)) (Fin 100))
            (divD (mulD (minD (minusD (Fin b) (Fin m)) (Fin w)) (Fin \<rho>)) (Fin 100))"
    unfolding s t by (rule divD_const_mono(1) [OF m(2) m(1)]) simp
  show "le (Fin 0) (divD (mulD (minD (minusD (Fin a) (Fin m)) (Fin w)) (Fin \<rho>)) (Fin 100))"
    unfolding s by (rule divD_const_mono(2) [OF m(2) m(1)]) simp
qed

lemma bracketStep_mono:
  assumes ab: "a \<le> b" and g: "good_bracket bracket"
    and t: "settled t" and t': "settled t'" and tt': "le t t'"
  shows "le (bracketStep (Fin a) bracket t) (bracketStep (Fin b) bracket t')"
    and "settled (bracketStep (Fin a) bracket t)"
    and "settled (bracketStep (Fin b) bracket t')"
proof -
  from g obtain m \<rho> w where
    m: "min_b bracket = Fin m" and r: "rate_b bracket = Fin \<rho>" "0 \<le> \<rho>" and
    w: "minusD (bracketMax_of bracket) (Fin m) = Fin w" "0 \<le> w"
    by (auto simp: good_bracket_def)
  let ?bt = "\<lambda>a. divD (mulD (minD (minusD (Fin a) (Fin m)) (Fin w)) (Fin \<rho>)) (Fin 100)"
  have step: "bracketStep (Fin c) bracket u = (if m < c then plusD u (?bt c) else u)" for c u
    by (simp add: bracketStep_alt m r w)
  have nn: "le (Fin 0) (?bt c)" if "m < c" for c
    using bracketTax_mono(2) [OF that order_refl w(2) r(2)] .
  show sa: "settled (bracketStep (Fin a) bracket t)"
    using t nn [of a] by (simp add: step settled_plusD)
  show sb: "settled (bracketStep (Fin b) bracket t')"
    using t' nn [of b] by (simp add: step settled_plusD)
  show "le (bracketStep (Fin a) bracket t) (bracketStep (Fin b) bracket t')"
  proof (cases "m < a")
    case True
    with ab have mb: "m < b" by simp
    have "le (plusD t (?bt a)) (plusD t' (?bt b))"
      using settled_nonneg [OF t] tt' nn [OF True] bracketTax_mono(1) [OF True ab w(2) r(2)]
      by (rule plusD_mono(1))
    with True mb show ?thesis by (simp add: step)
  next
    case False
    show ?thesis
    proof (cases "m < b")
      case True
      have "le t' (plusD t' (?bt b))" using t' nn [OF True] by (rule settled_plusD(2))
      with tt' have "le t (plusD t' (?bt b))" by (rule le_trans)
      with False True show ?thesis by (simp add: step)
    next
      case mb: False
      with False tt' show ?thesis by (simp add: step)
    qed
  qed
qed

lemma fold_bracketStep_mono:
  assumes "a \<le> b" and "\<forall>bracket \<in> set brackets. good_bracket bracket"
    and "settled t" and "settled t'" and "le t t'"
  shows "le (fold (bracketStep (Fin a)) brackets t) (fold (bracketStep (Fin b)) brackets t')
         \<and> settled (fold (bracketStep (Fin a)) brackets t)
         \<and> settled (fold (bracketStep (Fin b)) brackets t')"
  using assms
proof (induction brackets arbitrary: t t')
  case Nil
  then show ?case by simp
next
  case (Cons bracket brackets)
  from Cons.prems have g: "good_bracket bracket" by simp
  note s = bracketStep_mono [OF Cons.prems(1) g Cons.prems(3,4,5)]
  from Cons.IH [OF Cons.prems(1) _ s(2) s(3) s(1)] Cons.prems(2) show ?case by simp
qed

lemma finalise_small_int:
  "finalise 720000 = Fin 720000" "finalise 480000 = Fin 480000" "finalise 600000 = Fin 600000"
  "finalise 9007199252340991 = Fin 9007199252340991"
  by (simp_all add: num_eval cong: let_weak_cong)

lemma good_bracketI:
  assumes "min_b bracket = Fin m" "rate_b bracket = Fin \<rho>" "0 \<le> \<rho>"
    and "minusD (bracketMax_of bracket) (Fin m) = Fin w" "0 \<le> w"
  shows "good_bracket bracket"
  using assms unfolding good_bracket_def by blast

lemma taxBrackets_good: "\<forall>bracket \<in> set taxBrackets. good_bracket bracket"
proof -
  have "good_bracket \<lparr>min_b = Fin 0, max_b = Fin 720000, rate_b = Fin 0\<rparr>"
    by (rule good_bracketI [of _ 0 0 720000])
       (simp_all add: bracketMax_of_def finalise_small_int)
  moreover have "good_bracket \<lparr>min_b = Fin 720000, max_b = Fin 1200000, rate_b = Fin (55 / 10)\<rparr>"
    by (rule good_bracketI [of _ 720000 "55 / 10" 480000])
       (simp_all add: bracketMax_of_def finalise_small_int)
  moreover have "good_bracket \<lparr>min_b = Fin 1200000, max_b = Fin 1800000, rate_b = Fin 8\<rparr>"
    by (rule good_bracketI [of _ 1200000 8 600000])
       (simp_all add: bracketMax_of_def finalise_small_int)
  moreover have "good_bracket \<lparr>min_b = Fin 1800000, max_b = Fin 2400000, rate_b = Fin 12\<rparr>"
    by (rule good_bracketI [of _ 1800000 12 600000])
       (simp_all add: bracketMax_of_def finalise_small_int)
  moreover have "good_bracket \<lparr>min_b = Fin 2400000, max_b = PosInf, rate_b = Fin 15\<rparr>"
    by (rule good_bracketI [of _ 2400000 15 9007199252340991])
       (simp_all add: bracketMax_of_def MAX_SAFE_INTEGER_def finalise_small_int)
  ultimately show ?thesis by (simp add: taxBrackets_def)
qed

subsection \<open>The code's bracket step and the specification's\<close>

lemma bracketStep_bounded:
  "max_b bracket \<noteq> PosInf \<Longrightarrow>
   bracketStep income bracket tax = spec_bracketStep income bracket tax"
  by (simp add: bracketStep_alt spec_bracketStep_def bracketMax_of_def)

lemma minD_PosInf: "x \<noteq> NaN \<Longrightarrow> minD x PosInf = x"
  by (cases x) simp_all

lemma minD_le: "le x y \<Longrightarrow> minD x y = x"
  by (cases x; cases y) auto

lemma bracketStep_last:
  assumes "a \<le> 9007199254740991"
  shows "bracketStep (Fin a) \<lparr>min_b = Fin 2400000, max_b = PosInf, rate_b = Fin 15\<rparr> tax =
         spec_bracketStep (Fin a) \<lparr>min_b = Fin 2400000, max_b = PosInf, rate_b = Fin 15\<rparr> tax"
proof -
  have "le (finalise (a - 2400000)) (finalise 9007199252340991)"
    using assms by (intro finalise_mono) simp
  then have "minD (finalise (a - 2400000)) (Fin 9007199252340991) = finalise (a - 2400000)"
    by (simp add: finalise_small_int minD_le)
  then show ?thesis
    by (simp add: bracketStep_alt spec_bracketStep_def bracketMax_of_def MAX_SAFE_INTEGER_def
        finalise_small_int minD_PosInf)
qed

lemma calculateIncomeTax_0: "calculateIncomeTax (Fin 0) = Fin 0"
  by (simp add: calculateIncomeTax_def taxBrackets_def bracketStep_alt new_Decimal_def Let_def)

lemma tax_code_at_12e15:
  "calculateIncomeTax (Fin 12000000000000000) = Fin (11258999066646239 / 100)"
  by (simp add: calculateIncomeTax_def taxBrackets_def bracketStep_alt bracketMax_of_def
      MAX_SAFE_INTEGER_def new_Decimal_def num_eval cong: let_weak_cong)

lemma tax_spec_at_12e15:
  "spec_incomeTax (Fin 12000000000000000) = Fin 149999999982200"
  by (simp add: spec_incomeTax_def taxBrackets_def spec_bracketStep_def
      new_Decimal_def num_eval cong: let_weak_cong)

lemma highSalaryForm_incomeTax:
  "incomeTax (performCalculations highSalaryForm normal True) = Fin (11258999066646239 / 100)"
proof -
  have s: "getNumericValue ''1e15'' = Fin 1000000000000000"
    by (simp add: getNumericValue_def num_eval parse_eval new_Decimal_def cong: let_weak_cong)
  have c: "convertToNumericFormData highSalaryForm =
     \<lparr>salary = Fin 1000000000000000, rent = Fin 0, other = Fin 0, projectIncome = Fin 0,
      existingLoans = Fin 0, totalProjectCost = Fin 0, equityPercentage = Fin 0,
      rate = Fin 0, repaymentPeriod = Fin 0, gracePeriod = Fin 0\<rparr>"
    by (simp add: convertToNumericFormData_def highSalaryForm_def s getNumericValue_empty)
  have n: "toNumber (Fin 1000000000000000) = Fin 1000000000000000"
    "finalise 1000000000000000 = Fin 1000000000000000"
    "toNumber (Fin 12000000000000000) = Fin 12000000000000000"
    "finalise 12000000000000000 = Fin 12000000000000000"
    by (simp_all add: num_eval cong: let_weak_cong)
  have a: "applyScenarioMultipliers (convertToNumericFormData highSalaryForm) normal =
     \<lparr>adjustedSalary = Fin 1000000000000000, adjustedRent = Fin 0, adjustedOther = Fin 0,
      adjustedProjectIncome = Fin 0\<rparr>"
    by (simp add: c applyScenarioMultipliers_def new_Decimal_def Let_def n)
  have t: "totalIncome (performCalculations highSalaryForm normal True) = Fin 1000000000000000"
    by (simp add: pc_totalIncome a n)
  have p: "totalProjectIncome (performCalculations highSalaryForm normal True) = Fin 0"
    by (simp add: pc_totalProjectIncome a)
  show ?thesis
    by (simp add: pc_incomeTax t p n tax_code_at_12e15)
qed

subsection \<open>Recognising a rounded value\<close>

lemma round_half_up_close:
  assumes "\<bar>q - of_int m\<bar> < 1 / 2"
  shows "round_half_up q = m"
proof -
  have e: "\<bar>of_int (round_half_up q) - q\<bar> \<le> 1 / 2"
    using nearest_round_half_up by (simp add: nearest_def)
  have "\<bar>(of_int (round_half_up q) :: rat) - of_int m\<bar> < 1" using e assms by linarith
  then have "\<bar>(of_int (round_half_up q - m) :: rat)\<bar> < of_int 1" by simp
  then have "\<bar>round_half_up q - m\<bar> < 1" by (simp only: of_int_abs [symmetric] of_int_less_iff)
  then show ?thesis by simp
qed

lemma finalise_eqI:
  assumes m: "10 ^ 27 < m" "m < 10 ^ 28 - 1"
    and k: "minE \<le> k + 27" "k + 27 \<le> maxE"
    and x: "\<bar>x - of_int m * 10 powi k\<bar> < 10 powi k / 2"
  shows "finalise x = Fin (of_int m * 10 powi k)"
proof -
  let ?u = "10 powi k :: rat"
  let ?y = "of_int m * ?u"
  have u0: "0 < ?u" by simp
  have m1: "(10 ^ 27 + 1 :: rat) \<le> of_int m" and m2: "(of_int m :: rat) \<le> 10 ^ 28 - 2"
  proof -
    have "10 ^ 27 + 1 \<le> m" using m(1) by simp
    then have "(of_int (10 ^ 27 + 1) :: rat) \<le> of_int m" by (simp only: of_int_le_iff)
    then show "(10 ^ 27 + 1 :: rat) \<le> of_int m" by simp
    have "m \<le> 10 ^ 28 - 2" using m(2) by simp
    then have "(of_int m :: rat) \<le> of_int (10 ^ 28 - 2)" by (simp only: of_int_le_iff)
    then show "(of_int m :: rat) \<le> 10 ^ 28 - 2" by simp
  qed
  have p27: "(10::rat) powi (k + 27) = 10 ^ 27 * ?u"
    using power_int_add [of "10::rat" k 27] by (simp add: mult.commute)
  have p28: "(10::rat) powi (k + 27 + 1) = 10 ^ 28 * ?u"
    using power_int_add [of "10::rat" k 28] by (simp add: mult.commute add.assoc)
  have lo: "(10 ^ 27 + 1) * ?u \<le> ?y" using m1 u0 by (simp only: mult_le_cancel_right_pos)
  have hi: "?y \<le> (10 ^ 28 - 2) * ?u" using m2 u0 by (simp only: mult_le_cancel_right_pos)
  have xl: "?y - ?u / 2 < x" and xh: "x < ?y + ?u / 2" using x by linarith+
  have lo': "10 ^ 27 * ?u + ?u \<le> ?y" using lo by (simp add: algebra_simps)
  have hi': "?y \<le> 10 ^ 28 * ?u - 2 * ?u" using hi by (simp add: algebra_simps)
  have x1: "10 ^ 27 * ?u \<le> x" using lo' xl u0 by linarith
  have x2: "x < 10 ^ 28 * ?u" using hi' xh u0 by linarith
  have a0: "0 < 10 ^ 27 * ?u" using u0 by simp
  have xpos: "0 < x" using x1 a0 by linarith
  have fx: "fexp 10 x = k + 27"
    by (rule fexp_unique) (use x1 x2 xpos p27 p28 in simp_all)
  have q: "\<bar>x / ?u - of_int m\<bar> < 1 / 2"
  proof -
    have "x / ?u - of_int m = (x - ?y) / ?u" using u0 by (simp add: field_simps)
    then have "\<bar>x / ?u - of_int m\<bar> = \<bar>x - ?y\<bar> / ?u" using u0 by (simp add: abs_divide)
    also have "\<dots> < (?u / 2) / ?u" using x u0 by (simp only: divide_strict_right_mono)
    also have "\<dots> = 1 / 2" using u0 by simp
    finally show ?thesis .
  qed
  have r: "round_sd x = ?y"
    by (simp add: round_sd_def round_at_def fx round_half_up_close [OF q])
  have ypos: "0 < ?y" using lo' a0 u0 by linarith
  have fy: "fexp 10 ?y = k + 27"
  proof (rule fexp_unique)
    show "of_int 10 powi (k + 27) \<le> \<bar>?y\<bar>" using lo ypos u0 p27 by (simp add: algebra_simps)
    show "\<bar>?y\<bar> < of_int 10 powi (k + 27 + 1)" using hi ypos u0 p28 by (simp add: algebra_simps)
  qed simp
  from xpos r fy k show ?thesis by (simp add: finalise_def Let_def)
qed

lemma sq_lower:
  fixes x :: rat
  assumes "0 \<le> l" "l \<le> x ^ n" "l' \<le> l * l" "m = 2 * n"
  shows "l' \<le> x ^ m"
proof -
  have xm: "x ^ m = x ^ n * x ^ n" using assms(4) by (simp add: power_add mult_2)
  have "l * l \<le> x ^ n * x ^ n" using assms(1,2) by (intro mult_mono) simp_all
  with assms(3) show "l' \<le> x ^ m" unfolding xm by simp
qed

lemma sq_upper:
  fixes x :: rat
  assumes "0 \<le> l" "l \<le> x ^ n" "x ^ n \<le> u" "u * u \<le> u'" "m = 2 * n"
  shows "x ^ m \<le> u'"
proof -
  have xm: "x ^ m = x ^ n * x ^ n" using assms(5) by (simp add: power_add mult_2)
  have "0 \<le> x ^ n" using assms(1,2) by simp
  then have "x ^ n * x ^ n \<le> u * u" using assms(3) by (intro mult_mono) simp_all
  with assms(4) show "x ^ m \<le> u'" unfolding xm by simp
qed

lemma pow_240_bounds:
  fixes x :: rat
  assumes "x = 403 / 400"
  shows "60091515244725233428915378078510072188726 / 10 ^ 40 \<le> x ^ 240"
    and "x ^ 240 \<le> 60091515244725233428915378078510072188899 / 10 ^ 40"
proof -
  have l15: "11186025942323471152200334076054939654720 / 10 ^ 40 \<le> x ^ 15"
    unfolding assms by (simp add: power_divide)
  have u15: "x ^ 15 \<le> 11186025942323471152200334076054939654721 / 10 ^ 40"
    unfolding assms by (simp add: power_divide)
  have l30: "12512717638233370076410776829794012368265 / 10 ^ 40 \<le> x ^ 30"
    by (rule sq_lower [OF _ l15]) simp_all
  have u30: "x ^ 30 \<le> 12512717638233370076410776829794012368269 / 10 ^ 40"
    by (rule sq_upper [OF _ l15 u15]) simp_all
  have l60: "15656810269415648678662753153545449675050 / 10 ^ 40 \<le> x ^ 60"
    by (rule sq_lower [OF _ l30]) simp_all
  have u60: "x ^ 60 \<le> 15656810269415648678662753153545449675061 / 10 ^ 40"
    by (rule sq_upper [OF _ l30 u30]) simp_all
  have l120: "24513570781247931736193931334855915308975 / 10 ^ 40 \<le> x ^ 120"
    by (rule sq_lower [OF _ l60]) simp_all
  have u120: "x ^ 120 \<le> 24513570781247931736193931334855915309010 / 10 ^ 40"
    by (rule sq_upper [OF _ l60 u60]) simp_all
  have l240: "60091515244725233428915378078510072188726 / 10 ^ 40 \<le> x ^ 240"
    by (rule sq_lower [OF _ l120]) simp_all
  have u240: "x ^ 240 \<le> 60091515244725233428915378078510072188899 / 10 ^ 40"
    by (rule sq_upper [OF _ l120 u120]) simp_all
  from l240 show "60091515244725233428915378078510072188726 / 10 ^ 40 \<le> x ^ 240" .
  from u240 show "x ^ 240 \<le> 60091515244725233428915378078510072188899 / 10 ^ 40" .
qed

lemma finalise_pow_240:
  fixes x :: rat
  assumes "x = 403 / 400"
  shows "finalise (x ^ 240) = Fin (6009151524472523342891537808 / 10 ^ 27)"
proof -
  have "\<bar>x ^ 240 - of_int 6009151524472523342891537808 * 10 powi (- 27)\<bar>
        < (10 powi (- 27) / 2 :: rat)"
    using pow_240_bounds [OF assms] by (simp add: abs_less_iff power_int_minus field_simps)
  from finalise_eqI [OF _ _ _ _ this]
  have "finalise (x ^ 240) = Fin (of_int 6009151524472523342891537808 * 10 powi (- 27))"
    by (simp add: minE_def maxE_def)
  then show ?thesis
    by (simp add: power_int_minus field_simps)
qed

lemma finite_pow_nat:
  "a \<noteq> 1 \<Longrightarrow> finite_pow a 240 = finalise (a ^ 240)"
  by (simp add: finite_pow_def is_integer_def)

lemma finite_pow_240:
  "finite_pow (403 / 400) 240 = Fin (6009151524472523342891537808 / 10 ^ 27)"
proof -
  have 1: "(403 / 400 :: rat) \<noteq> 1" by simp
  have 2: "(403 / 400 :: rat) = 403 / 400" by (rule refl)
  show ?thesis by (rule trans [OF finite_pow_nat [OF 1] finalise_pow_240 [OF 2]])
qed

subsection \<open>The concrete scenario, step by step\<close>

lemma getNumericValue_examples:
  "getNumericValue ''80000'' = Fin 80000"
  "getNumericValue ''1800000'' = Fin 1800000"
  "getNumericValue ''10'' = Fin 10"
  "getNumericValue ''9.0'' = Fin 9"
  "getNumericValue ''240'' = Fin 240"
  by (simp_all add: getNumericValue_def num_eval parse_eval new_Decimal_def cong: let_weak_cong)

lemma convert_DEFAULT_FORM_DATA: "convertToNumericFormData DEFAULT_FORM_DATA = loanInput"
  by (simp add: convertToNumericFormData_def DEFAULT_FORM_DATA_def loanInput_def
      getNumericValue_examples getNumericValue_empty)

lemma toNumber_examples:
  "toNumber (Fin 80000) = Fin 80000"
  "toNumber (Fin 28000) = Fin 28000"
  "toNumber (Fin 1620000) = Fin 1620000"
  "toNumber (Fin 12150) = Fin 12150"
  "toNumber (Fin 960000) = Fin 960000"
  "toNumber (Fin 1100) = Fin 1100"
  "toNumber (Fin 50900) = Fin 50900"
  "toNumber (Fin 240) = Fin 240"
  by (simp_all add: num_eval cong: let_weak_cong)

lemma finalise_examples:
  "finalise 80000 = Fin 80000"
  "finalise 28000 = Fin 28000"
  "finalise 1620000 = Fin 1620000"
  "finalise 12150 = Fin 12150"
  "finalise 960000 = Fin 960000"
  "finalise 1100 = Fin 1100"
  "finalise 50900 = Fin 50900"
  "finalise 52000 = Fin 52000"
  "finalise 240000 = Fin 240000"
  "finalise 13200 = Fin 13200"
  "finalise 1320000 = Fin 1320000"
  "finalise 14580000 = Fin 14580000"
  "finalise 145800 = Fin 145800"
  "finalise (1 / 10) = Fin (1 / 10)"
  "finalise (9 / 10) = Fin (9 / 10)"
  "finalise (9 / 100) = Fin (9 / 100)"
  "finalise (3 / 400) = Fin (3 / 400)"
  "finalise (403 / 400) = Fin (403 / 400)"
  by (simp_all add: num_eval cong: let_weak_cong)

lemma bank_example: "calculateBankFinanceAmount (Fin 1800000) (Fin 10) = Fin 1620000"
  by (simp add: calculateBankFinanceAmount_def new_Decimal_def Let_def finalise_examples
      toNumber_examples)

lemma grace_example: "calculateGracePeriodPayment (Fin 1620000) (Fin 9) = Fin 12150"
  by (simp add: calculateGracePeriodPayment_def new_Decimal_def Let_def finalise_examples
      toNumber_examples)

lemma tax_example: "calculateIncomeTax (Fin 960000) = Fin 1100"
  by (simp add: calculateIncomeTax_def taxBrackets_def bracketStep_alt bracketMax_of_def
      new_Decimal_def Let_def finalise_examples finalise_small_int toNumber_examples)

lemma adjust_example:
  "applyScenarioMultipliers loanInput normal =
     \<lparr>adjustedSalary = Fin 80000, adjustedRent = Fin 0, adjustedOther = Fin 0,
      adjustedProjectIncome = Fin 0\<rparr>"
  by (simp add: applyScenarioMultipliers_def loanInput_def new_Decimal_def Let_def
      finalise_examples toNumber_examples)


lemma emi_example:
  "calculateEMI (Fin 1620000) (Fin 9) (Fin 240) = Fin (14575560484772803 / 10 ^ 12)"
proof -
  have num: "finalise (12150 * (6009151524472523342891537808 / 10 ^ 27))
             = Fin (7301119102234115861613218437 / 10 ^ 23)"
    by (simp add: num_eval cong: let_weak_cong)
  have den: "finalise (6009151524472523342891537808 / 10 ^ 27 - 1)
             = Fin (5009151524472523342891537808 / 10 ^ 27)"
    by (simp add: num_eval cong: let_weak_cong)
  have quo: "finalise ((7301119102234115861613218437 / 10 ^ 23)
                       / (5009151524472523342891537808 / 10 ^ 27))
             = Fin (1457556048477280322162391349 / 10 ^ 23)"
    by (simp add: num_eval cong: let_weak_cong)
  have num': "toNumber (Fin (1457556048477280322162391349 / 10 ^ 23))
              = Fin (14575560484772803 / 10 ^ 12)"
    by (simp add: num_eval cong: let_weak_cong)
  show ?thesis
    using num den quo num'
    by (simp add: calculateEMI_def new_Decimal_def Let_def isZero_def finalise_examples
        toNumber_examples finite_pow_240)
qed


lemma dscr_example:
  "toNumber (divD (Fin 50900) (Fin (14575560484772803 / 10 ^ 12)))
   = Fin (34921470123344904 / 10 ^ 16)"
proof -
  have quo: "finalise (50900 / (14575560484772803 / 10 ^ 12))
             = Fin (3492147012334490362122178055 / 10 ^ 27)"
    by (simp add: num_eval cong: let_weak_cong)
  have num: "toNumber (Fin (3492147012334490362122178055 / 10 ^ 27))
             = Fin (34921470123344904 / 10 ^ 16)"
    by (simp add: num_eval cong: let_weak_cong)
  show ?thesis using quo num by simp
qed

lemma finalise_emi: "finalise (14575560484772803 / 10 ^ 12) = Fin (14575560484772803 / 10 ^ 12)"
  by (simp add: num_eval cong: let_weak_cong)

lemma scenario_result:
  assumes "convertToNumericFormData fd = loanInput"
  shows "performCalculations fd normal True =
     \<lparr>totalIncome = Fin 80000,
      totalExpenditure = Fin 28000,
      totalProjectIncome = Fin 0,
      totalProjectExpenditure = Fin 1100,
      netIncome = Fin 50900,
      monthlyRepayment = Fin (14575560484772803 / 10 ^ 12),
      afterGraceRepayment = Fin (14575560484772803 / 10 ^ 12),
      gracePeriodRepayment = Fin 12150,
      dscr = Fin (34921470123344904 / 10 ^ 16),
      incomeTax = Fin 1100,
      maintenanceCost = Fin 0,
      bankFinanceAmount = Fin 1620000\<rparr>"
proof -
  have l: "totalProjectCost loanInput = Fin 1800000" "equityPercentage loanInput = Fin 10"
    "rate loanInput = Fin 9" "repaymentPeriod loanInput = Fin 240"
    "existingLoans loanInput = Fin 0"
    by (simp_all add: loanInput_def)
  have e: "finalise (80000 * (35 / 100)) = Fin 28000" "finalise (80000 * 12) = Fin 960000"
    "finalise (80000 - 28000) = Fin 52000" "finalise (52000 - 1100) = Fin 50900"
    by (simp_all add: finalise_examples)
  show ?thesis
    using emi_example dscr_example finalise_emi
    by (simp add: performCalculations_def assms adjust_example l e new_Decimal_def Let_def
        isZero_def finalise_examples toNumber_examples bank_example grace_example
        tax_example cong: let_weak_cong)
qed

text \<open>
  Up to \<open>Number.MAX_SAFE_INTEGER\<close> the code's cap on the last bracket is not reached,
  and \<open>calculateIncomeTax\<close> agrees with the bracket integration of the specification.
\<close>

lemma calculateIncomeTax_below_cap:
  "a \<le> 9007199254740991 \<Longrightarrow> calculateIncomeTax (Fin a) = spec_incomeTax (Fin a)"
  by (simp add: calculateIncomeTax_def spec_incomeTax_def taxBrackets_def new_Decimal_def
      Let_def bracketStep_bounded bracketStep_last)

subsection \<open>The example forms, step by step\<close>

lemma getNumericValue_more:
  "getNumericValue ''1200'' = Fin 1200"
  "getNumericValue ''0'' = Fin 0"
  "getNumericValue ''12'' = Fin 12"
  by (simp_all add: getNumericValue_def num_eval parse_eval new_Decimal_def cong: let_weak_cong)

lemma numbers_more:
  "toNumber (Fin 1200) = Fin 1200" "toNumber (Fin 100) = Fin 100"
  "finalise 1200 = Fin 1200" "finalise 100 = Fin 100" "finalise 1 = Fin 1"
  by (simp_all add: num_eval cong: let_weak_cong)

lemma zeroIncomeForm_result:
  "performCalculations zeroIncomeForm normal True =
     \<lparr>totalIncome = Fin 0, totalExpenditure = Fin 0, totalProjectIncome = Fin 0,
      totalProjectExpenditure = Fin 0, netIncome = Fin 0, monthlyRepayment = Fin 100,
      afterGraceRepayment = Fin 100, gracePeriodRepayment = Fin 0, dscr = Fin 0,
      incomeTax = Fin 0, maintenanceCost = Fin 0, bankFinanceAmount = Fin 1200\<rparr>"
proof -
  have c: "convertToNumericFormData zeroIncomeForm =
     \<lparr>salary = Fin 0, rent = Fin 0, other = Fin 0, projectIncome = Fin 0,
      existingLoans = Fin 0, totalProjectCost = Fin 1200, equityPercentage = Fin 0,
      rate = Fin 0, repaymentPeriod = Fin 12, gracePeriod = Fin 0\<rparr>"
    by (simp add: convertToNumericFormData_def zeroIncomeForm_def getNumericValue_more
        getNumericValue_empty)
  have b: "calculateBankFinanceAmount (Fin 1200) (Fin 0) = Fin 1200"
    by (simp add: calculateBankFinanceAmount_def new_Decimal_def Let_def numbers_more)
  have e: "calculateEMI (Fin 1200) (Fin 0) (Fin 12) = Fin 100"
    by (simp add: calculateEMI_zero_rate_all numbers_more)
  have gp: "calculateGracePeriodPayment (Fin 1200) (Fin 0) = Fin 0"
    by (simp add: calculateGracePeriodPayment_def new_Decimal_def Let_def)
  have a: "applyScenarioMultipliers
     \<lparr>salary = Fin 0, rent = Fin 0, other = Fin 0, projectIncome = Fin 0,
      existingLoans = Fin 0, totalProjectCost = Fin 1200, equityPercentage = Fin 0,
      rate = Fin 0, repaymentPeriod = Fin 12, gracePeriod = Fin 0\<rparr> normal =
     \<lparr>adjustedSalary = Fin 0, adjustedRent = Fin 0, adjustedOther = Fin 0,
      adjustedProjectIncome = Fin 0\<rparr>"
    by (simp add: applyScenarioMultipliers_def new_Decimal_def Let_def)
  show ?thesis
    by (simp add: performCalculations_def c a b e gp calculateIncomeTax_0 new_Decimal_def
        Let_def isZero_def numbers_more cong: let_weak_cong)
qed

subsection \<open>The equity complement\<close>

text \<open>
  The bank finance amount and the equity amount are each rounded three times on the way
  (twice to 28 digits, once to a binary64 and its printed digits); the bound follows the
  errors through both computations.
\<close>

lemma complement_error_bound:
  assumes c: "\<bar>c\<bar> \<le> MAX_VALUE" and e0: "0 \<le> e" and e100: "e \<le> 100"
  shows "\<exists>b a. calculateBankFinanceAmount (Fin c) (Fin e) = Fin b \<and>
               calculateEquityAmount (Fin c) (Fin e) = Fin a \<and>
               \<bar>b + a - c\<bar> \<le> \<bar>c\<bar> / 2 ^ 50 + 8 * dbl_tiny"
proof -
  have P: "(10::rat) ^ 27 = 1000000000000000000000000000" "(2::rat) ^ 51 = 2251799813685248"
    "(2::rat) ^ 50 = 1125899906842624" by simp_all
  define C where "C = \<bar>c\<bar>"
  define t where "t = C * (e / 100)"
  define w where "w = C * dec_tiny"
  define z where "z = 1 - e / 100"
  note M1 = MAX_VALUE_ge_1
  note \<eta>0 = dec_tiny_nonneg
  note \<eta>1 = dec_tiny_small
  note v0 = dbl_tiny_pos
  note v1 = dbl_tiny_le_1
  have G0: "16 * dbl_tiny \<le> dbl_gap" by (rule tiny_gap16)
  have G: "8 * MAX_VALUE / 1000000000000000000000000000 \<le> dbl_gap / 2"
    using G0 v0 unfolding MAX_VALUE_gap by simp
  have C0: "0 \<le> C" and CM: "C \<le> MAX_VALUE" using c by (simp_all add: C_def)
  have t0: "0 \<le> t" using C0 e0 by (simp add: t_def)
  have tC: "t \<le> C"
  proof -
    have "C * (e / 100) \<le> C * 1" using C0 e100 by (intro mult_left_mono) simp_all
    then show ?thesis by (simp add: t_def)
  qed
  have w0: "0 \<le> w" using C0 \<eta>0 by (simp add: w_def)
  have w1: "100 * w \<le> dbl_tiny"
  proof -
    have "C * dec_tiny \<le> MAX_VALUE * dec_tiny" using CM \<eta>0 by (intro mult_right_mono)
    with dec_tiny_scaled show ?thesis by (simp add: w_def)
  qed
  have z0: "0 \<le> z" and z1: "z \<le> 1" using e0 e100 by (simp_all add: z_def)
  have E1: "\<bar>e / 100\<bar> \<le> 1" using e0 e100 by simp
  have Z1: "\<bar>z\<bar> \<le> 1" using z0 z1 by simp
  have cz: "\<bar>c * z\<bar> = C - t"
  proof -
    have "\<bar>c * z\<bar> = \<bar>c\<bar> * z" using z0 by (simp add: abs_mult)
    also have "\<dots> = C - t" by (simp add: C_def t_def z_def algebra_simps)
    finally show ?thesis .
  qed
  have ce: "\<bar>c * e / 100\<bar> = t" using e0 by (simp add: abs_mult C_def t_def)
  have ce': "\<bar>c * e\<bar> = 100 * t" using e0 by (simp add: abs_mult C_def t_def)
  have split: "c * z + c * e / 100 = c" by (simp add: z_def algebra_simps)
  \<comment> \<open>the equity ratio\<close>
  have "\<bar>e / 100\<bar> \<le> 200 * MAX_VALUE" using E1 M1 by linarith
  from finalise_err [OF this] obtain q where q: "finalise (e / 100) = Fin q"
    and qe0: "\<bar>q - e / 100\<bar> \<le> \<bar>e / 100\<bar> / 10 ^ 27 + dec_tiny" by blast
  have qe: "\<bar>q - e / 100\<bar> \<le> 1 / 10 ^ 27 + dec_tiny"
    by (rule scale_bound [OF qe0 E1]) simp
  have qz: "\<bar>(1 - q) - z\<bar> \<le> 1 / 10 ^ 27 + dec_tiny" using qe unfolding z_def by linarith
  \<comment> \<open>the bank finance ratio\<close>
  from abs_near [OF qz] Z1 have "\<bar>1 - q\<bar> \<le> 1 + (1 / 10 ^ 27 + dec_tiny)" by linarith
  then have q3: "\<bar>1 - q\<bar> \<le> 3" using \<eta>1 v1 \<eta>0 unfolding P by linarith
  then have "\<bar>1 - q\<bar> \<le> 200 * MAX_VALUE" using M1 by linarith
  from finalise_err [OF this] obtain r where r: "finalise (1 - q) = Fin r"
    and r0: "\<bar>r - (1 - q)\<bar> \<le> \<bar>1 - q\<bar> / 10 ^ 27 + dec_tiny" by blast
  have "\<bar>r - (1 - q)\<bar> \<le> 3 / 10 ^ 27 + dec_tiny"
    by (rule scale_bound [OF r0 q3]) simp
  from abs_tri [OF this qz] have rz: "\<bar>r - z\<bar> \<le> 5 / 10 ^ 27 + 2 * dec_tiny"
    unfolding P by linarith
  \<comment> \<open>the bank finance amount, as a Decimal\<close>
  have crz: "\<bar>c * r - c * z\<bar> \<le> 5 * C / 10 ^ 27 + 2 * w"
    using abs_mult_diff [OF rz, of c] by (simp add: C_def w_def algebra_simps)
  from abs_near [OF crz] have cr: "\<bar>c * r\<bar> \<le> C - t + (5 * C / 10 ^ 27 + 2 * w)"
    by (simp only: cz)
  then have "\<bar>c * r\<bar> \<le> 200 * MAX_VALUE" using t0 CM C0 w1 w0 v1 M1 unfolding P by linarith
  from finalise_err [OF this] obtain b0 where b0: "finalise (c * r) = Fin b0"
    and b00: "\<bar>b0 - c * r\<bar> \<le> \<bar>c * r\<bar> / 10 ^ 27 + dec_tiny" by blast
  have "\<bar>b0 - c * r\<bar> \<le> (C - t + (5 * C / 10 ^ 27 + 2 * w)) / 10 ^ 27 + dec_tiny"
    by (rule scale_bound [OF b00 cr]) simp
  from abs_tri [OF this crz]
  have "\<bar>b0 - c * z\<bar> \<le> (C - t + (5 * C / 10 ^ 27 + 2 * w)) / 10 ^ 27 + dec_tiny
          + (5 * C / 10 ^ 27 + 2 * w)" .
  also have "\<dots> \<le> 7 * C / 10 ^ 27 + 3 * w + dec_tiny"
    using t0 C0 w0 by (simp add: field_simps)
  finally have bz: "\<bar>b0 - c * z\<bar> \<le> 7 * C / 10 ^ 27 + 3 * w + dec_tiny" .
  from abs_near [OF bz] have b0C: "\<bar>b0\<bar> \<le> C - t + (7 * C / 10 ^ 27 + 3 * w + dec_tiny)"
    by (simp only: cz)
  \<comment> \<open>the equity amount, as a Decimal\<close>
  have "\<bar>c * e\<bar> \<le> 200 * MAX_VALUE" using tC CM M1 unfolding ce' by linarith
  from finalise_err [OF this] obtain p where p: "finalise (c * e) = Fin p"
    and p0: "\<bar>p - c * e\<bar> \<le> \<bar>c * e\<bar> / 10 ^ 27 + dec_tiny" by blast
  from p0 have "\<bar>p - c * e\<bar> \<le> 100 * t / 10 ^ 27 + dec_tiny" by (simp only: ce')
  then have p1: "\<bar>p / 100 - c * e / 100\<bar> \<le> t / 10 ^ 27 + dec_tiny / 100"
    unfolding P by linarith
  from abs_near [OF p1] have p2: "\<bar>p / 100\<bar> \<le> t + (t / 10 ^ 27 + dec_tiny / 100)"
    by (simp only: ce)
  then have "\<bar>p / 100\<bar> \<le> 200 * MAX_VALUE"
    using tC CM t0 \<eta>1 v1 M1 \<eta>0 unfolding P by linarith
  from finalise_err [OF this] obtain a0 where a0: "finalise (p / 100) = Fin a0"
    and a00: "\<bar>a0 - p / 100\<bar> \<le> \<bar>p / 100\<bar> / 10 ^ 27 + dec_tiny" by blast
  have "\<bar>a0 - p / 100\<bar> \<le> (t + (t / 10 ^ 27 + dec_tiny / 100)) / 10 ^ 27 + dec_tiny"
    by (rule scale_bound [OF a00 p2]) simp
  from abs_tri [OF this p1]
  have "\<bar>a0 - c * e / 100\<bar> \<le> (t + (t / 10 ^ 27 + dec_tiny / 100)) / 10 ^ 27 + dec_tiny
          + (t / 10 ^ 27 + dec_tiny / 100)" .
  also have "\<dots> \<le> 3 * t / 10 ^ 27 + 3 * dec_tiny"
    using t0 \<eta>0 by (simp add: field_simps)
  finally have az: "\<bar>a0 - c * e / 100\<bar> \<le> 3 * t / 10 ^ 27 + 3 * dec_tiny" .
  from abs_near [OF az] have a0C: "\<bar>a0\<bar> \<le> t + (3 * t / 10 ^ 27 + 3 * dec_tiny)"
    by (simp only: ce)
  \<comment> \<open>the two Decimals together\<close>
  from abs_sum_near [OF bz az split]
  have sum0: "\<bar>b0 + a0 - c\<bar> \<le> 7 * C / 10 ^ 27 + 3 * w + dec_tiny + (3 * t / 10 ^ 27 + 3 * dec_tiny)" .
  \<comment> \<open>the two numbers\<close>
  have "\<bar>b0\<bar> \<le> MAX_VALUE + dbl_gap"
    using b0C t0 tC CM C0 w1 \<eta>1 G G0 v0 \<eta>0 w0 unfolding P by linarith
  from toNumber_err [OF this] obtain b where b: "toNumber (Fin b0) = Fin b"
    and be0: "\<bar>b - b0\<bar> \<le> \<bar>b0\<bar> / 2 ^ 51 + 3 * dbl_tiny" by blast
  have be: "\<bar>b - b0\<bar> \<le> (C - t + (7 * C / 10 ^ 27 + 3 * w + dec_tiny)) / 2 ^ 51 + 3 * dbl_tiny"
    by (rule scale_bound [OF be0 b0C]) simp
  have "\<bar>a0\<bar> \<le> MAX_VALUE + dbl_gap"
    using a0C t0 tC CM C0 \<eta>1 G G0 v0 \<eta>0 unfolding P by linarith
  from toNumber_err [OF this] obtain a where a: "toNumber (Fin a0) = Fin a"
    and ae0: "\<bar>a - a0\<bar> \<le> \<bar>a0\<bar> / 2 ^ 51 + 3 * dbl_tiny" by blast
  have ae: "\<bar>a - a0\<bar> \<le> (t + (3 * t / 10 ^ 27 + 3 * dec_tiny)) / 2 ^ 51 + 3 * dbl_tiny"
    by (rule scale_bound [OF ae0 a0C]) simp
  have bank: "calculateBankFinanceAmount (Fin c) (Fin e) = Fin b"
    by (simp add: calculateBankFinanceAmount_def new_Decimal_def Let_def q r b0 b)
  have equity: "calculateEquityAmount (Fin c) (Fin e) = Fin a"
    by (simp add: calculateEquityAmount_def new_Decimal_def Let_def p a0 a)
  from abs_sum_tri [OF be ae sum0]
  have "\<bar>b + a - c\<bar> \<le>
          (C - t + (7 * C / 10 ^ 27 + 3 * w + dec_tiny)) / 2 ^ 51 + 3 * dbl_tiny
          + ((t + (3 * t / 10 ^ 27 + 3 * dec_tiny)) / 2 ^ 51 + 3 * dbl_tiny)
          + (7 * C / 10 ^ 27 + 3 * w + dec_tiny + (3 * t / 10 ^ 27 + 3 * dec_tiny))" .
  also have "\<dots> \<le> C / 2 ^ 50 + 8 * dbl_tiny"
    using t0 tC C0 w0 w1 \<eta>0 \<eta>1 v0 by (simp add: field_simps)
  finally have "\<bar>b + a - c\<bar> \<le> C / 2 ^ 50 + 8 * dbl_tiny" .
  then have "\<bar>b + a - c\<bar> \<le> \<bar>c\<bar> / 2 ^ 50 + 8 * dbl_tiny" by (simp only: C_def)
  with bank equity show ?thesis by blast
qed

lemma overflow_example: "calculateEquityAmount (Fin (10 ^ 308)) (Fin 200) = PosInf"
proof -
  have p: "finalise (10 ^ 308 * 200) = Fin (of_int 2000000000000000000000000000 * 10 powi 283)"
    by (rule finalise_eqI) (simp_all add: minE_def maxE_def power_int_def)
  have a: "finalise (of_int 2000000000000000000000000000 * 10 powi 283 / 100)
           = Fin (of_int 2000000000000000000000000000 * 10 powi 281)"
    by (rule finalise_eqI) (simp_all add: minE_def maxE_def power_int_def)
  have "(2::rat) ^ 1024 \<le> of_int 2000000000000000000000000000 * 10 powi 281"
    by (simp add: power_int_def)
  from to_double_overflow [OF this]
  have t: "toNumber (Fin (of_int 2000000000000000000000000000 * 10 powi 281)) = PosInf"
    by (simp only: toNumber_Fin number.case)
  show ?thesis
    using p a t by (simp add: calculateEquityAmount_def new_Decimal_def Let_def)
qed

lemma tolerance_example_bank:
  "calculateBankFinanceAmount (Fin (3333333333333333 / 10 ^ 16)) (Fin 33)
     = Fin (2233333333333333 / 10 ^ 16)"
  by (simp add: calculateBankFinanceAmount_def new_Decimal_def num_eval cong: let_weak_cong)

lemma tolerance_example_equity:
  "calculateEquityAmount (Fin (3333333333333333 / 10 ^ 16)) (Fin 33)
     = Fin (10999999999999999 / 10 ^ 17)"
  by (simp add: calculateEquityAmount_def new_Decimal_def num_eval cong: let_weak_cong)


lemma tolerance_example_cost:
  "toNumber (Fin (3333333333333333 / 10 ^ 16)) = Fin (3333333333333333 / 10 ^ 16)"
  by (simp add: num_eval cong: let_weak_cong)

lemma infinite_example: "calculateEquityAmount PosInf (Fin 0) = NaN"
  by (simp add: calculateEquityAmount_def new_Decimal_def Let_def)

section \<open>Properties\<close>

text \<open>
  C5. With \<open>isAfterGrace = false\<close> the field \<open>totalProjectIncome\<close> of the result is exactly
  0, for every form input and both scenarios, whatever the (scenario-adjusted) project
  income is.
\<close>

theorem grace_gates_project_income:
  "totalProjectIncome (performCalculations fd sc False) = Fin 0"
  by (simp add: pc_totalProjectIncome)

text \<open>
  C6. For a fixed input and grace flag, \<open>bankFinanceAmount\<close> of the result is the same
  in the scenarios \<open>normal\<close> and \<open>income_reduce\<close>, and so is the equity amount the
  hook derives with \<open>calculateEquityAmount\<close>: changing the scenario of the hook's state
  leaves it unchanged.
\<close>

theorem scenario_leaves_cost_side:
  "bankFinanceAmount (performCalculations fd normal g) =
     bankFinanceAmount (performCalculations fd income_reduce g)
   \<and> equityAmt (derivedValues (st\<lparr>scenario := normal\<rparr>)) =
     equityAmt (derivedValues (st\<lparr>scenario := income_reduce\<rparr>))
   \<and> bankFinance (derivedValues (st\<lparr>scenario := normal\<rparr>)) =
     bankFinance (derivedValues (st\<lparr>scenario := income_reduce\<rparr>))"
  by (simp add: pc_bankFinanceAmount derivedValues_def Let_def)

text \<open>
  C10. The fields \<open>afterGraceRepayment\<close>, \<open>gracePeriodRepayment\<close> and
  \<open>bankFinanceAmount\<close> of the result are the same for every scenario and every grace
  flag: for a fixed input, any two of the four combinations agree on them.
\<close>

theorem repayments_independent_of_scenario_and_grace:
  "afterGraceRepayment (performCalculations fd sc g) =
     afterGraceRepayment (performCalculations fd sc' g')
   \<and> gracePeriodRepayment (performCalculations fd sc g) =
     gracePeriodRepayment (performCalculations fd sc' g')
   \<and> bankFinanceAmount (performCalculations fd sc g) =
     bankFinanceAmount (performCalculations fd sc' g')"
  by (simp add: pc_afterGraceRepayment pc_gracePeriodRepayment pc_bankFinanceAmount)

text \<open>
  C3. With a zero annual rate \<open>calculateEMI\<close> takes the straight-line branch: for every
  principal \<open>p \<ge> 0\<close> and tenure \<open>n > 0\<close> the result is the Decimal quotient \<open>p / n\<close>
  (the quotient rounded to the precision, returned as a number). The amortization
  formula and its division are not evaluated, and the result is never NaN.
\<close>

theorem zero_rate_EMI:
  "0 \<le> p \<Longrightarrow> 0 < n \<Longrightarrow>
   calculateEMI (Fin p) (Fin 0) (Fin n) = toNumber (finalise (p / n))
   \<and> calculateEMI (Fin p) (Fin 0) (Fin n) \<noteq> NaN"
  by (simp add: calculateEMI_zero_rate_all)

theorem zero_rate_EMI_witness:
  "(0::rat) \<le> 1200 \<and> (0::rat) < 12 \<and> calculateEMI (Fin 1200) (Fin 0) (Fin 12) = Fin 100"
  using zero_rate_EMI [of 1200 12] by (simp add: num_eval cong: let_weak_cong)

text \<open>
  C9. \<open>getNumericValue\<close> returns the number \<open>parseFloat\<close> reads from the text, and
  exactly 0 when the text is unparsable (\<open>parseFloat\<close> gives NaN) or empty; it never
  returns NaN, so no call is rejected.
\<close>

theorem getNumericValue_total:
  "getNumericValue raw = (if parseFloat raw = NaN then Fin 0 else parseFloat raw)
   \<and> getNumericValue raw \<noteq> NaN
   \<and> getNumericValue [] = Fin 0"
proof -
  have idem: "toNumber (parseFloat raw) = parseFloat raw"
    by (simp add: parseFloat_def)
  have 1: "getNumericValue raw = (if parseFloat raw = NaN then Fin 0 else parseFloat raw)"
    using idem by (auto simp: getNumericValue_def Let_def new_Decimal_def)
  from 1 getNumericValue_empty show ?thesis by auto
qed

text \<open>
  C4, as amended. In the result of \<open>performCalculations\<close>, \<open>dscr\<close> is 0 whenever the
  obligation \<open>existingLoans + afterGraceRepayment\<close> (the Decimal sum the code forms) is
  zero, in particular when both are 0, and otherwise it is the Decimal quotient of
  \<open>netIncome\<close> by that obligation, so that the quotient for \<open>dscr\<close> is formed only with a
  divisor that is not zero, for every input. Here \<open>afterGraceRepayment\<close> is
  \<open>calculateEMI\<close> of the bank finance amount, the rate and the tenure, and \<open>netIncome\<close> is
  \<open>totalIncome - totalExpenditure + totalProjectIncome - totalProjectExpenditure\<close>.
\<close>

theorem dscr_zero_guard:
  "dscr (performCalculations fd sc g) =
     (if plusD (existingLoans (convertToNumericFormData fd))
               (afterGraceRepayment (performCalculations fd sc g)) = Fin 0
      then Fin 0
      else toNumber (divD (netIncome (performCalculations fd sc g))
                          (plusD (existingLoans (convertToNumericFormData fd))
                                 (afterGraceRepayment (performCalculations fd sc g)))))
   \<and> afterGraceRepayment (performCalculations fd sc g) =
       calculateEMI
         (calculateBankFinanceAmount (totalProjectCost (convertToNumericFormData fd))
            (equityPercentage (convertToNumericFormData fd)))
         (rate (convertToNumericFormData fd)) (repaymentPeriod (convertToNumericFormData fd))
   \<and> netIncome (performCalculations fd sc g) =
       toNumber (minusD (plusD (minusD (totalIncome (performCalculations fd sc g))
                                       (totalExpenditure (performCalculations fd sc g)))
                               (totalProjectIncome (performCalculations fd sc g)))
                        (totalProjectExpenditure (performCalculations fd sc g)))
   \<and> (existingLoans (convertToNumericFormData fd) = Fin 0 \<and>
        afterGraceRepayment (performCalculations fd sc g) = Fin 0
        \<longrightarrow> dscr (performCalculations fd sc g) = Fin 0)"
proof -
  have n: "netIncome (performCalculations fd sc g) =
       toNumber (minusD (plusD (minusD (totalIncome (performCalculations fd sc g))
                                       (totalExpenditure (performCalculations fd sc g)))
                               (totalProjectIncome (performCalculations fd sc g)))
                        (totalProjectExpenditure (performCalculations fd sc g)))"
    by (rule pc_netIncome)
  have a: "afterGraceRepayment (performCalculations fd sc g) =
       calculateEMI
         (calculateBankFinanceAmount (totalProjectCost (convertToNumericFormData fd))
            (equityPercentage (convertToNumericFormData fd)))
         (rate (convertToNumericFormData fd)) (repaymentPeriod (convertToNumericFormData fd))"
    by (simp add: pc_afterGraceRepayment pc_bankFinanceAmount)
  have d: "dscr (performCalculations fd sc g) =
     (if plusD (existingLoans (convertToNumericFormData fd))
               (afterGraceRepayment (performCalculations fd sc g)) = Fin 0
      then Fin 0
      else toNumber (divD (netIncome (performCalculations fd sc g))
                          (plusD (existingLoans (convertToNumericFormData fd))
                                 (afterGraceRepayment (performCalculations fd sc g)))))"
    by (simp add: pc_dscr isZero_def new_Decimal_def)
  have z: "existingLoans (convertToNumericFormData fd) = Fin 0 \<and>
        afterGraceRepayment (performCalculations fd sc g) = Fin 0
        \<longrightarrow> dscr (performCalculations fd sc g) = Fin 0"
    using d by simp
  from d a n z show ?thesis by blast
qed

theorem dscr_zero_guard_witness:
  "existingLoans (convertToNumericFormData
      \<lparr>FormDataStrings.salary = ''80000'', rent = [], other = [], projectIncome = [], existingLoans = [],
       totalProjectCost = ''0'', equityPercentage = ''10'', rate = ''0'',
       repaymentPeriod = ''240'', gracePeriod = []\<rparr>) = Fin 0
   \<and> afterGraceRepayment (performCalculations
      \<lparr>FormDataStrings.salary = ''80000'', rent = [], other = [], projectIncome = [], existingLoans = [],
       totalProjectCost = ''0'', equityPercentage = ''10'', rate = ''0'',
       repaymentPeriod = ''240'', gracePeriod = []\<rparr> normal True) = Fin 0
   \<and> dscr (performCalculations
      \<lparr>FormDataStrings.salary = ''80000'', rent = [], other = [], projectIncome = [], existingLoans = [],
       totalProjectCost = ''0'', equityPercentage = ''10'', rate = ''0'',
       repaymentPeriod = ''240'', gracePeriod = []\<rparr> normal True) = Fin 0"
proof -
  let ?fd = "\<lparr>FormDataStrings.salary = ''80000'', rent = [], other = [], projectIncome = [], existingLoans = [],
       totalProjectCost = ''0'', equityPercentage = ''10'', rate = ''0'',
       repaymentPeriod = ''240'', gracePeriod = []\<rparr>"
  have z: "getNumericValue ''0'' = Fin 0"
    by (simp add: getNumericValue_def num_eval parse_eval new_Decimal_def cong: let_weak_cong)
  have t: "getNumericValue ''10'' = Fin 10"
    by (simp add: getNumericValue_def num_eval parse_eval new_Decimal_def cong: let_weak_cong)
  have n: "getNumericValue ''240'' = Fin 240"
    by (simp add: getNumericValue_def num_eval parse_eval new_Decimal_def cong: let_weak_cong)
  have L: "existingLoans (convertToNumericFormData ?fd) = Fin 0"
    by (simp add: convertToNumericFormData_def getNumericValue_empty)
  have B: "bankFinanceAmount (performCalculations ?fd normal True) = Fin 0"
    by (simp add: pc_bankFinanceAmount convertToNumericFormData_def z t
        calculateBankFinanceAmount_def new_Decimal_def num_eval cong: let_weak_cong)
  have A: "afterGraceRepayment (performCalculations ?fd normal True) = Fin 0"
    by (simp add: pc_afterGraceRepayment B convertToNumericFormData_def z n
        calculateEMI_zero_rate_all)
  from L A dscr_zero_guard [of ?fd normal True] show ?thesis by simp
qed

text \<open>
  C4, as stated, fails in two places. \<open>dscr\<close> is also 0 when the obligation is not: the
  form with no income and a loan of 1200 at rate 0 over 12 months has the obligation
  100 and \<open>dscr = 0\<close>. And a quotient by zero is formed inside \<open>calculateEMI\<close> when the
  tenure is left empty: the same form without a tenure has
  \<open>afterGraceRepayment = 1200 / 0\<close>, which decimal.js evaluates to \<open>Infinity\<close>.
\<close>

theorem dscr_zero_guard_counterexample:
  "dscr (performCalculations zeroIncomeForm normal True) = Fin 0
   \<and> plusD (existingLoans (convertToNumericFormData zeroIncomeForm))
           (afterGraceRepayment (performCalculations zeroIncomeForm normal True)) = Fin 100
   \<and> repaymentPeriod (convertToNumericFormData noTenureForm) = Fin 0
   \<and> afterGraceRepayment (performCalculations noTenureForm normal True)
       = toNumber (divD (Fin 1200) (Fin 0))
   \<and> afterGraceRepayment (performCalculations noTenureForm normal True) = PosInf"
proof -
  have c: "convertToNumericFormData noTenureForm =
     \<lparr>salary = Fin 0, rent = Fin 0, other = Fin 0, projectIncome = Fin 0,
      existingLoans = Fin 0, totalProjectCost = Fin 1200, equityPercentage = Fin 0,
      rate = Fin 0, repaymentPeriod = Fin 0, gracePeriod = Fin 0\<rparr>"
    by (simp add: convertToNumericFormData_def noTenureForm_def getNumericValue_more
        getNumericValue_empty)
  have c': "existingLoans (convertToNumericFormData zeroIncomeForm) = Fin 0"
    by (simp add: convertToNumericFormData_def zeroIncomeForm_def getNumericValue_empty)
  have b: "calculateBankFinanceAmount (Fin 1200) (Fin 0) = Fin 1200"
    by (simp add: calculateBankFinanceAmount_def new_Decimal_def Let_def numbers_more)
  have a: "afterGraceRepayment (performCalculations noTenureForm normal True)
           = toNumber (divD (Fin 1200) (Fin 0))"
    by (simp add: pc_afterGraceRepayment pc_bankFinanceAmount c b calculateEMI_zero_rate_all)
  show ?thesis
    using a by (simp add: zeroIncomeForm_result c c' numbers_more inf_of_def)
qed

text \<open>
  C8. \<open>calculateIncomeTax\<close> is monotone: for annual incomes \<open>0 \<le> a < b\<close> the monthly tax
  of \<open>a\<close> is at most that of \<open>b\<close>. Every rounding on the way (of the Decimal operations
  and of the conversion to a number) is monotone.
\<close>

theorem calculateIncomeTax_monotone:
  "0 \<le> a \<Longrightarrow> a < b \<Longrightarrow> le (calculateIncomeTax (Fin a)) (calculateIncomeTax (Fin b))"
proof -
  assume "0 \<le> a" and ab: "a < b"
  then have le: "a \<le> b" by simp
  from fold_bracketStep_mono [OF le taxBrackets_good, of "Fin 0" "Fin 0"]
  have f: "le (fold (bracketStep (Fin a)) taxBrackets (Fin 0))
              (fold (bracketStep (Fin b)) taxBrackets (Fin 0))"
    and s: "settled (fold (bracketStep (Fin a)) taxBrackets (Fin 0))"
    by simp_all
  have "le (divD (fold (bracketStep (Fin a)) taxBrackets (Fin 0)) (Fin 12))
           (divD (fold (bracketStep (Fin b)) taxBrackets (Fin 0)) (Fin 12))"
    by (rule divD_const_mono(1) [OF settled_nonneg [OF s] f]) simp
  then show ?thesis
    by (simp add: calculateIncomeTax_def Let_def new_Decimal_def toNumber_mono)
qed

theorem calculateIncomeTax_monotone_witness:
  "(0::rat) \<le> 720000 \<and> (720000::rat) < 960000
   \<and> le (calculateIncomeTax (Fin 720000)) (calculateIncomeTax (Fin 960000))"
  using calculateIncomeTax_monotone [of 720000 960000] by simp

text \<open>
  C2. The claim asks for the bracket integration with the last bracket unbounded, as
  the table of the code itself declares it (\<open>max: Infinity\<close>). The loop of
  \<open>calculateIncomeTax\<close> replaces that bound by \<open>Number.MAX_SAFE_INTEGER\<close>, so above it the
  taxable amount of the last bracket is capped: at the annual income
  \<open>12000000000000000\<close>, which the form reaches with the monthly salary \<open>1e15\<close>, the code
  returns 112589990666462.39 where the integration of the claim gives 149999999982200.
\<close>

theorem last_bracket_capped:
  "calculateIncomeTax (Fin 12000000000000000) = Fin (11258999066646239 / 100)
   \<and> spec_incomeTax (Fin 12000000000000000) = Fin 149999999982200
   \<and> incomeTax (performCalculations highSalaryForm normal True)
       = calculateIncomeTax (Fin 12000000000000000)"
  by (simp add: tax_code_at_12e15 tax_spec_at_12e15 highSalaryForm_incomeTax)

text \<open>
  C1, as amended. For the input salary 80000, rent 0, other 0, project income 0,
  existing loans 0, total project cost 1800000, equity 10 percent, rate 9.0, repayment
  period 240 and grace period 0, in the scenario \<open>normal\<close> after the grace period,
  \<open>performCalculations\<close> returns \<open>bankFinanceAmount = 1620000\<close>, \<open>totalIncome = 80000\<close>,
  \<open>totalExpenditure = 28000\<close>, \<open>afterGraceRepayment = 14575.560484772803\<close> (that is
  14575.56, not 14575.19), \<open>netIncome = 50900\<close> and
  \<open>dscr = netIncome / afterGraceRepayment = 3.4921470123344904\<close>.
\<close>

theorem concrete_scenario:
  "convertToNumericFormData fd = loanInput \<Longrightarrow>
   bankFinanceAmount (performCalculations fd normal True) = Fin 1620000
   \<and> totalIncome (performCalculations fd normal True) = Fin 80000
   \<and> totalExpenditure (performCalculations fd normal True) = Fin 28000
   \<and> afterGraceRepayment (performCalculations fd normal True)
       = Fin (14575560484772803 / 10 ^ 12)
   \<and> netIncome (performCalculations fd normal True) = Fin 50900
   \<and> dscr (performCalculations fd normal True)
       = toNumber (divD (netIncome (performCalculations fd normal True))
                        (afterGraceRepayment (performCalculations fd normal True)))
   \<and> dscr (performCalculations fd normal True) = Fin (34921470123344904 / 10 ^ 16)"
  using dscr_example finalise_emi by (simp add: scenario_result)

theorem concrete_scenario_witness:
  "convertToNumericFormData DEFAULT_FORM_DATA = loanInput
   \<and> bankFinanceAmount (performCalculations DEFAULT_FORM_DATA normal True) = Fin 1620000
   \<and> afterGraceRepayment (performCalculations DEFAULT_FORM_DATA normal True)
       = Fin (14575560484772803 / 10 ^ 12)"
  using concrete_scenario [OF convert_DEFAULT_FORM_DATA] convert_DEFAULT_FORM_DATA by simp

text \<open>
  C1, as stated, gives \<open>afterGraceRepayment \<approx> 14575.19\<close>. The code returns
  14575.560484772803 for the input of the scenario (the default form data), which is
  more than a cent away.
\<close>

theorem concrete_scenario_counterexample:
  "afterGraceRepayment (performCalculations DEFAULT_FORM_DATA normal True)
     = Fin (14575560484772803 / 10 ^ 12)
   \<and> \<not> \<bar>14575560484772803 / 10 ^ 12 - 1457519 / 100\<bar> < (1 / 100 :: rat)"
  by (simp add: scenario_result [OF convert_DEFAULT_FORM_DATA])

text \<open>
  C7, as amended. For every finite \<open>totalProjectCost\<close> (at most \<open>Number.MAX_VALUE\<close> in
  magnitude) and every \<open>equityPercentage\<close> from 0 to 100, \<open>calculateBankFinanceAmount\<close> and
  \<open>calculateEquityAmount\<close> return finite numbers, and their sum (the exact sum of the two
  numbers returned) differs from the cost by at most \<open>\<bar>cost\<bar> / 2^50 + 2^-1072\<close>: the
  tolerance of the conversion of each result to a binary64 by \<open>toNumber\<close>, which is much
  wider than that of the 28-digit Decimal arithmetic.
\<close>

theorem equity_complement:
  assumes "\<bar>c\<bar> \<le> MAX_VALUE" and "0 \<le> e" and "e \<le> 100"
  shows "\<exists>b a.
           calculateBankFinanceAmount (Fin c) (Fin e) = Fin b \<and>
           calculateEquityAmount (Fin c) (Fin e) = Fin a \<and>
           \<bar>b + a - c\<bar> \<le> \<bar>c\<bar> / 2 ^ 50 + 1 / 2 ^ 1072"
proof -
  have "8 * dbl_tiny = 1 / 2 ^ 1072" by (simp add: dbl_tiny_def)
  with complement_error_bound [OF assms] show ?thesis by simp
qed

theorem equity_complement_witness:
  "\<bar>1800000\<bar> \<le> MAX_VALUE \<and> (0::rat) \<le> 10 \<and> (10::rat) \<le> 100 \<and>
   (\<exists>b a.
      calculateBankFinanceAmount (Fin 1800000) (Fin 10) = Fin b \<and>
      calculateEquityAmount (Fin 1800000) (Fin 10) = Fin a \<and>
      \<bar>b + a - 1800000\<bar> \<le> \<bar>1800000\<bar> / 2 ^ 50 + 1 / 2 ^ 1072)"
proof -
  have m: "\<bar>1800000\<bar> \<le> MAX_VALUE" by (simp add: MAX_VALUE_def)
  from equity_complement [OF m, of 10] m show ?thesis by simp
qed

text \<open>
  C7, as stated, fails for a cost that is not finite (\<open>Infinity\<close> at 0 percent gives the
  equity amount \<open>NaN\<close>), for a percentage outside 0 to 100 (the cost \<open>1e308\<close> at 200
  percent gives the equity amount \<open>Infinity\<close>), and within the tolerance of the Decimal
  arithmetic: for the cost 0.3333333333333333, which is a number, and 33 percent the
  results are 0.2233333333333333 and 0.10999999999999999, whose sum misses the cost by
  \<open>10^-17\<close>, in the seventeenth significant digit and not the twenty-eighth.
\<close>

theorem equity_complement_counterexample:
  "calculateEquityAmount PosInf (Fin 0) = NaN
   \<and> calculateEquityAmount (Fin (10 ^ 308)) (Fin 200) = PosInf
   \<and> toNumber (Fin (3333333333333333 / 10 ^ 16)) = Fin (3333333333333333 / 10 ^ 16)
   \<and> calculateBankFinanceAmount (Fin (3333333333333333 / 10 ^ 16)) (Fin 33)
       = Fin (2233333333333333 / 10 ^ 16)
   \<and> calculateEquityAmount (Fin (3333333333333333 / 10 ^ 16)) (Fin 33)
       = Fin (10999999999999999 / 10 ^ 17)
   \<and> (2233333333333333 / 10 ^ 16 + 10999999999999999 / 10 ^ 17
        - 3333333333333333 / 10 ^ 16 :: rat) = - 1 / 10 ^ 17"
proof -
  have "(2233333333333333 / 10 ^ 16 + 10999999999999999 / 10 ^ 17
        - 3333333333333333 / 10 ^ 16 :: rat) = - 1 / 10 ^ 17" by simp
  with infinite_example overflow_example tolerance_example_cost tolerance_example_bank
    tolerance_example_equity
  show ?thesis by (simp only: simp_thms)
qed

end
